theory Spec2Isabelle
  imports Main
begin

section \<open>Objects with reference identity\<close>

text \<open>
  JavaScript objects (atom configurations, arrays, the store's state object) are compared
  by reference. A heap maps addresses to object contents; \<open>next_addr\<close> is the first
  address that has never been handed out, so an allocation always returns a reference that
  no earlier object has.
\<close>

type_synonym addr = nat

record 'o heap =
  cells :: "addr \<Rightarrow> 'o"
  next_addr :: addr

definition alloc :: "'o heap \<Rightarrow> 'o \<Rightarrow> addr \<times> 'o heap" where
  "alloc hp obj =
     (next_addr hp, hp\<lparr>cells := (cells hp)(next_addr hp := obj), next_addr := Suc (next_addr hp)\<rparr>)"

section \<open>devtools/useAtomsSnapshot.ts: getState\<close>

text \<open>
  \<^verbatim>\<open>const getState = (state: State) => ({ ...state }) // shallow copy\<close>

  \<open>State\<close> is declared in core/vanilla, which is not among the sources, so the content of
  the object (its top-level entries) is a type parameter \<open>'o\<close>. The object spread allocates a
  new object holding the same top-level entries; nested objects are shared, not copied.
\<close>

definition getState :: "'o heap \<Rightarrow> addr \<Rightarrow> addr \<times> 'o heap" where
  "getState hp state = alloc hp (cells hp state)"

section \<open>tests/utils/atomFamily.test.tsx: the element writer of the derived family\<close>

text \<open>
  The write function of \<open>myFamily(param)\<close> in the test
  \<open>derived atomFamily functionality as usual\<close> hands this updater to \<open>set(arrayAtom, ...)\<close>:
  \<^verbatim>\<open>
  (oldArray) => {
    if (typeof oldArray[param] === 'undefined') return oldArray
    const newValue =
      typeof update === 'function' ? update(oldArray[param]) : update
    const newArray = [
      ...oldArray.slice(0, param),
      newValue,
      ...oldArray.slice(param + 1),
    ]
    return newArray
  }
  \<close>
  \<open>SetStateAction<number>\<close> is either a plain value or a function of the previous value.
  The array lives in a heap of arrays, so that returning \<open>oldArray\<close> itself and returning a
  freshly built array are different results. The arrays of the test hold numbers (never
  \<open>undefined\<close>), so \<open>oldArray[param]\<close> is \<open>undefined\<close> exactly when \<open>param\<close> is not an
  index of the array.
\<close>

datatype 'a SetStateAction = Plain 'a | Updater "'a \<Rightarrow> 'a"

definition applyAction :: "'a SetStateAction \<Rightarrow> 'a \<Rightarrow> 'a" where
  "applyAction update prev = (case update of Plain v \<Rightarrow> v | Updater f \<Rightarrow> f prev)"

definition isUndefinedAt :: "'a list \<Rightarrow> int \<Rightarrow> bool" where
  "isUndefinedAt oldArray param \<longleftrightarrow> param < 0 \<or> int (length oldArray) \<le> param"

definition elementUpdater ::
  "int \<Rightarrow> 'a SetStateAction \<Rightarrow> 'a list heap \<Rightarrow> addr \<Rightarrow> addr \<times> 'a list heap" where
  "elementUpdater param update hp oldArray =
     (let old = cells hp oldArray in
      if isUndefinedAt old param then (oldArray, hp)
      else
        let newValue = applyAction update (old ! nat param);
            newArray = take (nat param) old @ [newValue] @ drop (nat param + 1) old
        in alloc hp newArray)"

text \<open>
  \<open>set(arrayAtom, fn)\<close> on the primitive atom \<open>arrayAtom\<close> (``the write of primitive atoms is
  equivalent to the setState of React.useState'', docs/api/core.md): the atom's value, a
  reference to an array, is replaced by what the updater returns for the previous value.
\<close>

definition writeElement ::
  "int \<Rightarrow> 'a SetStateAction \<Rightarrow> 'a list heap \<times> addr \<Rightarrow> 'a list heap \<times> addr" where
  "writeElement param update s =
     (case elementUpdater param update (fst s) (snd s) of (r, hp') \<Rightarrow> (hp', r))"

section \<open>Atom families\<close>

text \<open>
  A parameter of a family is a JavaScript value: a primitive, compared by value, or an
  object, which has a reference besides its content.
\<close>

datatype 'v param = Prim 'v | Obj addr 'v

text \<open>
  The custom equality of the test \<open>custom equality function work\<close>,
  \<^verbatim>\<open>(l, r) => l.index === r.index\<close>, compares the content of two parameters and ignores
  which object holds it.
\<close>

fun paramValue :: "'v param \<Rightarrow> 'v" where
  "paramValue (Prim v) = v"
| "paramValue (Obj r v) = v"

definition sameIndex :: "'v param \<Rightarrow> 'v param \<Rightarrow> bool" where
  "sameIndex l r \<longleftrightarrow> paramValue l = paramValue r"

text \<open>
  Modelled from the spec: \<open>atomFamily\<close> (src/utils/atomFamily.ts is not among the sources;
  only its tests are). ``Mapping from a family-specific parameter value to a memoized atom
  configuration, with lookup using a pluggable equality function (default: reference/shallow
  equality fallback to value equality for primitives). Entries persist until explicitly
  removed.'' ``\<open>family(parameter)\<close> returns a memoized atom configuration for that parameter,
  creating it via a caller-supplied factory function on first use, looking up by the
  configured equality function on subsequent calls. \<open>family.remove(parameter)\<close> evicts the
  cached entry.''

  The cache is a list of (parameter, configuration reference) pairs in insertion order. The
  factory builds the content of a configuration; the configuration object itself is
  allocated, so its identity is a fresh reference.
\<close>

fun defaultEqual :: "'v param \<Rightarrow> 'v param \<Rightarrow> bool" where
  "defaultEqual (Prim a) (Prim b) = (a = b)"
| "defaultEqual (Obj r a) (Obj r' b) = (r = r')"
| "defaultEqual _ _ = False"

record ('p, 'c) family =
  initializeAtom :: "'p \<Rightarrow> 'c"
  areEqual :: "'p \<Rightarrow> 'p \<Rightarrow> bool"
  atoms :: "('p \<times> addr) list"

text \<open>
  Modelled from the spec: the creation of a family from the factory and an optional equality
  function; without one, the default equality is used. The cache starts empty.
\<close>

definition atomFamily ::
  "('v param \<Rightarrow> 'c) \<Rightarrow> ('v param \<Rightarrow> 'v param \<Rightarrow> bool) option \<Rightarrow> ('v param, 'c) family" where
  "atomFamily init eq =
     \<lparr>initializeAtom = init,
      areEqual = (case eq of None \<Rightarrow> defaultEqual | Some f \<Rightarrow> f),
      atoms = []\<rparr>"

text \<open>
  Modelled from the spec: the call \<open>family(parameter)\<close>. A cached configuration is looked up
  with the equality function; on a miss the factory's configuration is allocated and cached.
\<close>

definition createAtom ::
  "('p, 'c) family \<Rightarrow> 'c heap \<Rightarrow> 'p \<Rightarrow> addr \<times> ('p, 'c) family \<times> 'c heap" where
  "createAtom fam hp p =
     (case find (\<lambda>entry. areEqual fam (fst entry) p) (atoms fam) of
        Some entry \<Rightarrow> (snd entry, fam, hp)
      | None \<Rightarrow>
          (case alloc hp (initializeAtom fam p) of
             (a, hp') \<Rightarrow> (a, fam\<lparr>atoms := atoms fam @ [(p, a)]\<rparr>, hp')))"

text \<open>
  Modelled from the spec: \<open>family.remove(parameter)\<close>, which ``evicts the cached entry:
  subsequent calls with an equal parameter produce a brand-new configuration with a new
  identity''.
\<close>

definition remove :: "('p, 'c) family \<Rightarrow> 'p \<Rightarrow> ('p, 'c) family" where
  "remove fam p = fam\<lparr>atoms := filter (\<lambda>entry. \<not> areEqual fam (fst entry) p) (atoms fam)\<rparr>"

text \<open>
  Every cached reference has been allocated, and no reference is cached twice: what holds
  of a family that starts empty and is only used through \<open>createAtom\<close> and \<open>remove\<close>.
\<close>

definition family_wf :: "('p, 'c) family \<Rightarrow> 'c heap \<Rightarrow> bool" where
  "family_wf fam hp \<longleftrightarrow>
     list_all (\<lambda>entry. snd entry < next_addr hp) (atoms fam) \<and> distinct (map snd (atoms fam))"

section \<open>The atom store\<close>

text \<open>
  Modelled from the spec: atom configurations and the dependency graph store with its read,
  write, propagation, promise and mount procedures. The engine (src/core/vanilla.ts) is not
  among the sources; what is modelled is the spec's sections 3, 4.1, 4.2, 5, 6 and 7.

  An atom is identified by the reference of its configuration object. A read function
  \<open>(get) => Value | Promise<Value>\<close> is a program that may call \<open>get\<close> on atoms, branch on what
  it is given, and finally return a value, return a promise, or throw. A write function
  \<open>(get, set, update) => void\<close> may call \<open>get\<close> and \<open>set\<close> and may throw.
\<close>

type_synonym atom = addr

type_synonym promise = nat

datatype error = Thrown string | CyclicDependency | RecursionLimit | NotWritable | UnresolvedRead promise

datatype 'v reader = Return 'v | ReturnPromise | Throw string | Get atom "'v \<Rightarrow> 'v reader"

datatype 'v writer = Done | Fail string | WGet atom "'v \<Rightarrow> 'v writer" | WSet atom 'v "'v writer"

datatype 'v readSpec = Constant 'v | Compute "'v reader"

datatype mountHook = ReturnsUnmount | ReturnsNothing

record 'v atomConfig =
  read :: "'v readSpec"
  write' :: "('v \<Rightarrow> 'v writer) option"
  onMount :: "mountHook option"

datatype 'v valueState = Resolved 'v | Pending promise

datatype lifecycleEvent = MountCalled atom | UnmountCalled atom

datatype 'v result = Value 'v | PendingMarker promise | Failed error

text \<open>
  Modelled from the spec: the store state (section 3). \<open>valueMap\<close> (absent means unset),
  \<open>dependencyMap\<close>, its transpose \<open>dependentMap\<close>, \<open>mountedSet\<close> and \<open>pendingPromiseMap\<close>.
  The lifecycle manager keeps the subscriber count of every atom and the unmount callbacks
  that mount callbacks returned. \<open>nextPromise\<close> is the identity the next issued promise gets,
  and \<open>callbackLog\<close> records every call of a mount or unmount callback, in order.
  Dependency and dependent sets are lists without repetition, in insertion order.
\<close>

record 'v store =
  valueMap :: "atom \<rightharpoonup> 'v valueState"
  dependencyMap :: "atom \<Rightarrow> atom list"
  dependentMap :: "atom \<Rightarrow> atom list"
  mountedSet :: "atom set"
  pendingPromiseMap :: "atom \<rightharpoonup> promise"
  nextPromise :: promise
  subscribers :: "atom \<Rightarrow> nat"
  unmountCallbacks :: "atom set"
  callbackLog :: "lifecycleEvent list"

text \<open>
  Modelled from the spec: \<open>createStore(initialValues?)\<close>, a ``new store instance for a scope''
  (section 6).
\<close>

definition createStore :: "(atom \<times> 'v) list \<Rightarrow> 'v store" where
  "createStore initialValues =
     \<lparr>valueMap = map_of (map (\<lambda>(a, v). (a, Resolved v)) initialValues),
      dependencyMap = (\<lambda>_. []),
      dependentMap = (\<lambda>_. []),
      mountedSet = {},
      pendingPromiseMap = Map.empty,
      nextPromise = 0,
      subscribers = (\<lambda>_. 0),
      unmountCallbacks = {},
      callbackLog = []\<rparr>"

subsection \<open>Committing a read\<close>

text \<open>
  Modelled from the spec: the rewrite of the edge sets that ends a read pass (section 4.1).
  ``After the function returns, replace the atom's dependency set with exactly the set
  recorded during this pass''; ``every read recomputation rebuilds both sides atomically
  (remove stale edges, add fresh edges)''.
\<close>

definition setDependencies :: "'v store \<Rightarrow> atom \<Rightarrow> atom list \<Rightarrow> 'v store" where
  "setDependencies st a deps =
     st\<lparr>dependencyMap := (dependencyMap st)(a := deps),
        dependentMap := (\<lambda>d. if d \<in> set deps then List.insert a (dependentMap st d)
                              else if d \<in> set (dependencyMap st a) then removeAll a (dependentMap st d)
                              else dependentMap st d)\<rparr>"

definition commitValue :: "'v store \<Rightarrow> atom \<Rightarrow> 'v \<Rightarrow> atom list \<Rightarrow> 'v store" where
  "commitValue st a v deps = (setDependencies st a deps)\<lparr>valueMap := (valueMap st)(a \<mapsto> Resolved v)\<rparr>"

text \<open>
  Modelled from the spec: the pending marker of an asynchronous read (section 4.1).
  ``If the read function returns a promise, store a pending marker immediately'': the
  promise gets a fresh identity, which becomes the atom's most recently issued promise.
\<close>

definition issuePromise :: "'v store \<Rightarrow> atom \<Rightarrow> atom list \<Rightarrow> 'v store" where
  "issuePromise st a deps =
     (setDependencies st a deps)
       \<lparr>valueMap := (valueMap st)(a \<mapsto> Pending (nextPromise st)),
        pendingPromiseMap := (pendingPromiseMap st)(a \<mapsto> nextPromise st),
        nextPromise := Suc (nextPromise st)\<rparr>"

subsection \<open>Mount and unmount\<close>

text \<open>
  Modelled from the spec: mounting and unmounting one atom (section 4.2).
  ``Whenever the mounted-set gains an atom, invoke its \<open>onMount\<close> if present, recording any
  returned unmount callback. Whenever the mounted-set loses an atom (last subscriber
  removed), invoke the recorded unmount callback if present, then remove the atom from the
  mounted-set.'' An atom can be unmounted when it has no subscriber of its own and no
  mounted atom depends on it.
\<close>

definition mountOne :: "(atom \<Rightarrow> 'v atomConfig) \<Rightarrow> atom \<Rightarrow> 'v store \<Rightarrow> 'v store" where
  "mountOne cfg x st =
     (if x \<in> mountedSet st then st
      else st\<lparr>mountedSet := insert x (mountedSet st),
              unmountCallbacks := (if onMount (cfg x) = Some ReturnsUnmount
                                   then insert x (unmountCallbacks st) else unmountCallbacks st),
              callbackLog := callbackLog st @ (if onMount (cfg x) = None then [] else [MountCalled x])\<rparr>)"

definition canUnmount :: "'v store \<Rightarrow> atom \<Rightarrow> bool" where
  "canUnmount st x \<longleftrightarrow>
     x \<in> mountedSet st \<and> subscribers st x = 0 \<and> list_all (\<lambda>d. d \<notin> mountedSet st) (dependentMap st x)"

definition unmountOne :: "atom \<Rightarrow> 'v store \<Rightarrow> 'v store" where
  "unmountOne x st =
     (if canUnmount st x
      then st\<lparr>mountedSet := mountedSet st - {x},
              unmountCallbacks := unmountCallbacks st - {x},
              callbackLog := callbackLog st @ (if x \<in> unmountCallbacks st then [UnmountCalled x] else [])\<rparr>
      else st)"

text \<open>
  Modelled from the spec: the walk along the edges of the graph (sections 4.1, 4.2 and 7).
  Mounting and unmounting are transitive along the dependency edges, propagation along the
  dependent edges. \<open>reachable n g a\<close> lists
  what \<open>a\<close> reaches in the graph \<open>g\<close>, nearest first; it gives up (\<open>None\<close>) where a path is
  longer than the depth limit \<open>n\<close>, which is how unbounded recursion is detected.
\<close>

primrec reachable :: "nat \<Rightarrow> (atom \<Rightarrow> atom list) \<Rightarrow> atom \<Rightarrow> atom list option" where
  "reachable 0 g a = (if g a = [] then Some [] else None)"
| "reachable (Suc n) g a = map_option (\<lambda>ls. g a @ concat ls) (those (map (reachable n g) (g a)))"

definition closure :: "nat \<Rightarrow> (atom \<Rightarrow> atom list) \<Rightarrow> atom list \<Rightarrow> atom list option" where
  "closure n g xs = map_option (\<lambda>ls. xs @ concat ls) (those (map (reachable n g) xs))"

subsection \<open>The read procedure\<close>

text \<open>
  Modelled from the spec: running a read function (section 4.1).
  ``Invoke the read function with a tracking accessor \<open>get\<close>. Each invocation of \<open>get(dep)\<close>
  inside the read function (a) resolves \<open>dep\<close>'s current value recursively via the same
  procedure, (b) records \<open>dep\<close> as a dependency of the atom being computed for this pass.''
  A dependency that throws makes the read throw the same error; a dependency that is
  pending suspends the read on that promise.
\<close>

datatype 'v runResult = Returns 'v | ReturnsPromise | Throws error | Suspends promise

primrec runRead ::
  "('v store \<Rightarrow> atom \<Rightarrow> 'v result \<times> 'v store) \<Rightarrow> 'v reader \<Rightarrow> 'v store \<Rightarrow> atom list
     \<Rightarrow> 'v runResult \<times> 'v store \<times> atom list" where
  "runRead get (Return v) = (\<lambda>st deps. (Returns v, st, deps))"
| "runRead get ReturnPromise = (\<lambda>st deps. (ReturnsPromise, st, deps))"
| "runRead get (Throw e) = (\<lambda>st deps. (Throws (Thrown e), st, deps))"
| "runRead get (Get d k) = (\<lambda>st deps.
     case get st d of
       (Value v, st1) \<Rightarrow> runRead get (k v) st1 (List.insert d deps)
     | (PendingMarker p, st1) \<Rightarrow> (Suspends p, st1, deps)
     | (Failed e, st1) \<Rightarrow> (Throws e, st1, deps))"

text \<open>
  Modelled from the spec: the look into the cache before a computation (section 4.1).
  ``\<open>getValue(config)\<close> returns the current value, computing it if absent'': a cached value
  or pending marker is returned as it is.
\<close>

definition getAtom ::
  "('v store \<Rightarrow> atom \<Rightarrow> 'v result \<times> 'v store) \<Rightarrow> 'v store \<Rightarrow> atom \<Rightarrow> 'v result \<times> 'v store" where
  "getAtom compute st a =
     (case valueMap st a of
        Some (Resolved v) \<Rightarrow> (Value v, st)
      | Some (Pending p) \<Rightarrow> (PendingMarker p, st)
      | None \<Rightarrow> compute st a)"

text \<open>
  Modelled from the spec: the mount bookkeeping that follows the commit of a read
  (section 4.2). The mounted-set gains an atom ``because a newly-mounted dependent now depends
  on it'': after the commit of a mounted atom, its dependencies are mounted (transitively), and
  the dependencies it no longer has are unmounted where nothing else needs them. The atoms
  that stay dependencies are not touched.
\<close>

definition finishRead ::
  "(atom \<Rightarrow> 'v atomConfig) \<Rightarrow> nat \<Rightarrow> 'v store \<Rightarrow> atom \<Rightarrow> 'v result \<Rightarrow> 'v store \<Rightarrow> 'v result \<times> 'v store" where
  "finishRead cfg n st1 a res st2 =
     (if a \<in> mountedSet st1 then
        (case closure n (dependencyMap st2) (dependencyMap st2 a) of
           None \<Rightarrow> (Failed RecursionLimit, st1)
         | Some ms \<Rightarrow>
             (case closure n (dependencyMap st2)
                     (filter (\<lambda>d. d \<notin> set (dependencyMap st2 a)) (dependencyMap st1 a)) of
                None \<Rightarrow> (Failed RecursionLimit, st1)
              | Some us \<Rightarrow> (res, fold unmountOne us (fold (mountOne cfg) ms st2))))
      else (res, st2))"

text \<open>
  Modelled from the spec: the read procedure (section 4.1) with the detection of cycles
  (section 7). \<open>readAtomState cfg n computing st a\<close> computes the unset atom \<open>a\<close>. \<open>computing\<close> holds the atoms
  whose read function is running (``a read function that reads an atom currently being
  computed constitutes a structural misuse; implementations should detect unbounded
  recursion and fail fast with a diagnostic''), and \<open>n\<close> bounds the depth of nested reads.
  A read that throws or is suspended commits nothing for the atom.
\<close>

primrec readAtomState ::
  "(atom \<Rightarrow> 'v atomConfig) \<Rightarrow> nat \<Rightarrow> atom set \<Rightarrow> 'v store \<Rightarrow> atom \<Rightarrow> 'v result \<times> 'v store" where
  "readAtomState cfg 0 = (\<lambda>computing st a. (Failed RecursionLimit, st))"
| "readAtomState cfg (Suc n) = (\<lambda>computing st a.
     if a \<in> computing then (Failed CyclicDependency, st)
     else
       (case read (cfg a) of
          Constant v \<Rightarrow> finishRead cfg n st a (Value v) (commitValue st a v [])
        | Compute r \<Rightarrow>
            (case runRead (getAtom (readAtomState cfg n (insert a computing))) r st [] of
               (Returns v, st1, deps) \<Rightarrow> finishRead cfg n st1 a (Value v) (commitValue st1 a v deps)
             | (ReturnsPromise, st1, deps) \<Rightarrow>
                 finishRead cfg n st1 a (PendingMarker (nextPromise st1)) (issuePromise st1 a deps)
             | (Throws e, st1, deps) \<Rightarrow> (Failed e, st1)
             | (Suspends p, st1, deps) \<Rightarrow> (PendingMarker p, st1))))"

text \<open>
  Modelled from the spec: \<open>store.getValue(config) -> Value | PendingMarker | throws\<close>
  (section 6).
\<close>

definition getValue :: "(atom \<Rightarrow> 'v atomConfig) \<Rightarrow> nat \<Rightarrow> 'v store \<Rightarrow> atom \<Rightarrow> 'v result \<times> 'v store" where
  "getValue cfg n st a = getAtom (readAtomState cfg n {}) st a"

subsection \<open>The write procedure and propagation\<close>

text \<open>
  Modelled from the spec: propagation (section 4.1).
  ``Propagation after any \<open>set\<close>: mark the atom and every transitive dependent as needing
  recomputation, then recompute dependents only if they are currently mounted --- unmounted
  dependents are left stale and are recomputed lazily on next read.'' An atom that needs
  recomputation is unset. Recomputing a dependent through the read procedure computes the
  dependencies it reads first, so no atom is recomputed before its updated dependencies.
  ``A read function throwing synchronously propagates the error to the caller of
  \<open>getValue\<close>/\<open>setValue\<close>.''
\<close>

definition invalidate :: "'v store \<Rightarrow> atom list \<Rightarrow> 'v store" where
  "invalidate st ds = st\<lparr>valueMap := (\<lambda>x. if x \<in> set ds then None else valueMap st x)\<rparr>"

fun recompute ::
  "('v store \<Rightarrow> atom \<Rightarrow> 'v result \<times> 'v store) \<Rightarrow> 'v store \<Rightarrow> atom list \<Rightarrow> error option \<times> 'v store" where
  "recompute get st [] = (None, st)"
| "recompute get st (d # ds) =
     (case get st d of
        (Failed e, st1) \<Rightarrow> (Some e, st1)
      | (_, st1) \<Rightarrow> recompute get st1 ds)"

definition commitAndPropagate ::
  "(atom \<Rightarrow> 'v atomConfig) \<Rightarrow> nat \<Rightarrow> 'v store \<Rightarrow> atom \<Rightarrow> 'v \<Rightarrow> error option \<times> 'v store" where
  "commitAndPropagate cfg n st a v =
     (case reachable n (dependentMap st) a of
        None \<Rightarrow> (Some RecursionLimit, st)
      | Some ds \<Rightarrow>
          recompute (getAtom (readAtomState cfg n {}))
            ((invalidate st ds)\<lparr>valueMap := (valueMap (invalidate st ds))(a \<mapsto> Resolved v)\<rparr>)
            (filter (\<lambda>d. d \<in> mountedSet st) ds))"

text \<open>
  Modelled from the spec: running a write function (section 4.1).
  ``Invoke the write function with \<open>get\<close> (untracked, reads current committed values, must
  not read an unresolved async value) and \<open>set\<close> (commits a value to a target atom, then
  triggers propagation).''
\<close>

primrec runWrite ::
  "('v store \<Rightarrow> atom \<Rightarrow> 'v result \<times> 'v store) \<Rightarrow> ('v store \<Rightarrow> atom \<Rightarrow> 'v \<Rightarrow> error option \<times> 'v store)
     \<Rightarrow> 'v writer \<Rightarrow> 'v store \<Rightarrow> error option \<times> 'v store" where
  "runWrite get set' Done = (\<lambda>st. (None, st))"
| "runWrite get set' (Fail e) = (\<lambda>st. (Some (Thrown e), st))"
| "runWrite get set' (WGet d k) = (\<lambda>st.
     case get st d of
       (Value v, st1) \<Rightarrow> runWrite get set' (k v) st1
     | (PendingMarker p, st1) \<Rightarrow> (Some (UnresolvedRead p), st1)
     | (Failed e, st1) \<Rightarrow> (Some e, st1))"
| "runWrite get set' (WSet t v k) = (\<lambda>st.
     case set' st t v of
       (Some e, st1) \<Rightarrow> (Some e, st1)
     | (None, st1) \<Rightarrow> runWrite get set' k st1)"

text \<open>
  Modelled from the spec: \<open>store.setValue(config, update) -> void | throws\<close> (sections 4.1
  and 6). \<open>setValue(config, update)\<close> ``applies a write and propagates''. A primitive atom (a constant
  \<open>read\<close> and no \<open>write\<close> of its own) takes the update as its new value.
\<close>

definition setValue ::
  "(atom \<Rightarrow> 'v atomConfig) \<Rightarrow> nat \<Rightarrow> 'v store \<Rightarrow> atom \<Rightarrow> 'v \<Rightarrow> error option \<times> 'v store" where
  "setValue cfg n st a update =
     (case write' (cfg a) of
        Some w \<Rightarrow> runWrite (getValue cfg n) (commitAndPropagate cfg n) (w update) st
      | None \<Rightarrow>
          (case read (cfg a) of
             Constant _ \<Rightarrow> commitAndPropagate cfg n st a update
           | Compute _ \<Rightarrow> (Some NotWritable, st)))"

subsection \<open>Settling a promise\<close>

text \<open>
  Modelled from the spec: the resolution of a promise (sections 3, 4.1 and 5).
  ``Upon resolution, commit the value only if no newer read for the same atom has since
  been issued; otherwise discard.'' ``Only the most recently issued promise for a given atom
  may commit a value; older resolutions are silently ignored.'' A promise that commits is no
  longer in flight.
\<close>

definition settlePromise ::
  "(atom \<Rightarrow> 'v atomConfig) \<Rightarrow> nat \<Rightarrow> 'v store \<Rightarrow> atom \<Rightarrow> promise \<Rightarrow> 'v \<Rightarrow> error option \<times> 'v store" where
  "settlePromise cfg n st a p v =
     (if pendingPromiseMap st a = Some p
      then (case reachable n (dependentMap st) a of
              None \<Rightarrow> (Some RecursionLimit, st)
            | Some ds \<Rightarrow>
                commitAndPropagate cfg n (st\<lparr>pendingPromiseMap := (pendingPromiseMap st)(a := None)\<rparr>) a v)
      else (None, st))"

subsection \<open>Subscribing\<close>

text \<open>
  Modelled from the spec: \<open>store.subscribe(config, callback) -> unsubscribe()\<close> (sections 4.2
  and 6). \<open>store.subscribe(config, callback)\<close> ``registers external interest, participates in
  mount/unmount accounting''; the returned \<open>unsubscribe\<close> takes the interest back.
  ``Mounting atom A mounts every atom in A's current dependency set; unmounting is transitive
  in the same way, deferred until no dependent atom still needs the dependency.''
\<close>

definition subscribe :: "(atom \<Rightarrow> 'v atomConfig) \<Rightarrow> nat \<Rightarrow> 'v store \<Rightarrow> atom \<Rightarrow> error option \<times> 'v store" where
  "subscribe cfg n st a =
     (case closure n (dependencyMap st) [a] of
        None \<Rightarrow> (Some RecursionLimit, st)
      | Some ms \<Rightarrow>
          (None, fold (mountOne cfg) ms (st\<lparr>subscribers := (subscribers st)(a := Suc (subscribers st a))\<rparr>)))"

definition unsubscribe :: "nat \<Rightarrow> 'v store \<Rightarrow> atom \<Rightarrow> error option \<times> 'v store" where
  "unsubscribe n st a =
     (if subscribers st a = 0 then (None, st)
      else
        (case closure n (dependencyMap st) [a] of
           None \<Rightarrow> (Some RecursionLimit, st)
         | Some us \<Rightarrow>
             (None, fold unmountOne us (st\<lparr>subscribers := (subscribers st)(a := subscribers st a - 1)\<rparr>))))"

subsection \<open>What a read function computes\<close>

text \<open>
  The meaning of a read function against given resolved values \<open>g\<close>, independent of the
  store's bookkeeping: how the function ends when \<open>get\<close> answers from \<open>g\<close> (\<open>None\<close> when it asks
  for an atom that \<open>g\<close> has no value for), and the atoms that it passes to \<open>get\<close> on the way.
\<close>

datatype 'v ending = Ends 'v | EndsPromise | EndsThrow string

primrec evalOf :: "(atom \<rightharpoonup> 'v) \<Rightarrow> 'v reader \<Rightarrow> 'v ending option" where
  "evalOf g (Return v) = Some (Ends v)"
| "evalOf g ReturnPromise = Some EndsPromise"
| "evalOf g (Throw e) = Some (EndsThrow e)"
| "evalOf g (Get d k) = (case g d of None \<Rightarrow> None | Some v \<Rightarrow> evalOf g (k v))"

primrec readsOf :: "(atom \<rightharpoonup> 'v) \<Rightarrow> 'v reader \<Rightarrow> atom set" where
  "readsOf g (Return v) = {}"
| "readsOf g ReturnPromise = {}"
| "readsOf g (Throw e) = {}"
| "readsOf g (Get d k) = insert d (case g d of None \<Rightarrow> {} | Some v \<Rightarrow> readsOf g (k v))"

definition outcomeOf :: "(atom \<rightharpoonup> 'v) \<Rightarrow> 'v atomConfig \<Rightarrow> 'v ending option" where
  "outcomeOf g c = (case read c of Constant v \<Rightarrow> Some (Ends v) | Compute r \<Rightarrow> evalOf g r)"

definition dependenciesOf :: "(atom \<rightharpoonup> 'v) \<Rightarrow> 'v atomConfig \<Rightarrow> atom set" where
  "dependenciesOf g c = (case read c of Constant v \<Rightarrow> {} | Compute r \<Rightarrow> readsOf g r)"

definition resolved :: "'v store \<Rightarrow> atom \<rightharpoonup> 'v" where
  "resolved st a = (case valueMap st a of Some (Resolved v) \<Rightarrow> Some v | _ \<Rightarrow> None)"

text \<open>
  The cached state of an atom is fresh when it is what the atom's read function gives
  against the values the store holds now, with exactly the atoms it then reads recorded as
  dependencies. An unset atom has nothing that could be stale.
\<close>

definition fresh :: "(atom \<Rightarrow> 'v atomConfig) \<Rightarrow> 'v store \<Rightarrow> atom \<Rightarrow> bool" where
  "fresh cfg st a \<longleftrightarrow>
     (case valueMap st a of
        None \<Rightarrow> True
      | Some (Resolved v) \<Rightarrow>
          outcomeOf (resolved st) (cfg a) = Some (Ends v) \<and>
          set (dependencyMap st a) = dependenciesOf (resolved st) (cfg a)
      | Some (Pending p) \<Rightarrow>
          outcomeOf (resolved st) (cfg a) = Some EndsPromise \<and>
          set (dependencyMap st a) = dependenciesOf (resolved st) (cfg a))"

subsection \<open>The steps of the read procedure\<close>

text \<open>
  Every change that the read procedure makes to the store is one of four steps: committing
  the value that the read function of an unset atom returns, issuing a promise for an unset
  atom whose read function returns one, mounting an atom, and unmounting an atom. An atom
  whose read function is still running is never committed.
\<close>

inductive rstep :: "(atom \<Rightarrow> 'v atomConfig) \<Rightarrow> atom set \<Rightarrow> 'v store \<Rightarrow> 'v store \<Rightarrow> bool"
  for cfg :: "atom \<Rightarrow> 'v atomConfig" and computing :: "atom set" where
  commit:
    "a \<notin> computing \<Longrightarrow> valueMap st a = None \<Longrightarrow>
     outcomeOf (resolved st) (cfg a) = Some (Ends v) \<Longrightarrow>
     set deps = dependenciesOf (resolved st) (cfg a) \<Longrightarrow>
     rstep cfg computing st (commitValue st a v deps)"
| issue:
    "a \<notin> computing \<Longrightarrow> valueMap st a = None \<Longrightarrow>
     outcomeOf (resolved st) (cfg a) = Some EndsPromise \<Longrightarrow>
     set deps = dependenciesOf (resolved st) (cfg a) \<Longrightarrow>
     rstep cfg computing st (issuePromise st a deps)"
| mount: "rstep cfg computing st (mountOne cfg x st)"
| unmount: "rstep cfg computing st (unmountOne x st)"

text \<open>
  What the read procedure expects of the accessor it hands to a read function: it changes the
  store by read steps only, and afterwards the atom is resolved exactly when a value was
  returned for it; a pending marker names a promise that some atom is waiting for.
\<close>

definition readerOk ::
  "(atom \<Rightarrow> 'v atomConfig) \<Rightarrow> atom set \<Rightarrow> ('v store \<Rightarrow> atom \<Rightarrow> 'v result \<times> 'v store) \<Rightarrow> bool" where
  "readerOk cfg computing get \<longleftrightarrow>
     (\<forall>st d res st'. get st d = (res, st') \<longrightarrow>
        (rstep cfg computing)\<^sup>*\<^sup>* st st' \<and>
        resolved st' d = (case res of Value v \<Rightarrow> Some v | _ \<Rightarrow> None) \<and>
        (\<forall>p. res = PendingMarker p \<longrightarrow> (\<exists>x. valueMap st' x = Some (Pending p))))"

text \<open>
  ``\<open>dependentMap\<close> is always the exact transpose of \<open>dependencyMap\<close>.''
\<close>

definition transposed :: "'v store \<Rightarrow> bool" where
  "transposed st \<longleftrightarrow> (\<forall>a d. a \<in> set (dependentMap st d) \<longleftrightarrow> d \<in> set (dependencyMap st a))"

subsection \<open>A write function that throws before its first set\<close>

text \<open>
  \<open>throwsBeforeSet cfg n st w e st'\<close>: run from the store \<open>st\<close>, the write function \<open>w\<close> reads
  atoms (through \<open>getValue\<close>, which may compute them) and then throws \<open>e\<close> without having called
  \<open>set\<close>; \<open>st'\<close> is the store at the throw.
\<close>

inductive throwsBeforeSet ::
  "(atom \<Rightarrow> 'v atomConfig) \<Rightarrow> nat \<Rightarrow> 'v store \<Rightarrow> 'v writer \<Rightarrow> string \<Rightarrow> 'v store \<Rightarrow> bool"
  for cfg :: "atom \<Rightarrow> 'v atomConfig" and n :: nat where
  atThrow: "throwsBeforeSet cfg n st (Fail e) e st"
| afterGet:
    "getValue cfg n st d = (Value v, st1) \<Longrightarrow> throwsBeforeSet cfg n st1 (k v) e st2 \<Longrightarrow>
     throwsBeforeSet cfg n st (WGet d k) e st2"

code_pred (modes: i \<Rightarrow> i \<Rightarrow> i \<Rightarrow> i \<Rightarrow> o \<Rightarrow> o \<Rightarrow> bool) throwsBeforeSet .

text \<open>No atom of the store is waiting for a promise.\<close>

definition noPending :: "'v store \<Rightarrow> bool" where
  "noPending st \<longleftrightarrow> (\<forall>x p. valueMap st x \<noteq> Some (Pending p))"

subsection \<open>Scenarios\<close>

text \<open>
  The atoms of the spec's scenarios. \<open>chainConfig\<close>: the primitive atom \<open>count = 0\<close> (atom 0), the
  derived atom \<open>double = count * 2\<close> (atom 1) and a third atom that adds one to \<open>double\<close>
  (atom 2), with a mount callback that returns an unmount callback.
\<close>

definition chainConfig :: "atom \<Rightarrow> int atomConfig" where
  "chainConfig a =
     (if a = 0 then \<lparr>read = Constant 0, write' = None, onMount = None\<rparr>
      else if a = 1 then \<lparr>read = Compute (Get 0 (\<lambda>count. Return (count * 2))), write' = None,
                          onMount = None\<rparr>
      else \<lparr>read = Compute (Get 1 (\<lambda>double. Return (double + 1))), write' = None,
            onMount = Some ReturnsUnmount\<rparr>)"

text \<open>
  \<open>branchConfig\<close>: atom 3 reads the primitive atom 0 and then, depending on its value, either
  the primitive atom 1 or the primitive atom 2.
\<close>

definition branchConfig :: "atom \<Rightarrow> int atomConfig" where
  "branchConfig a =
     (if a = 3
      then \<lparr>read = Compute (Get 0 (\<lambda>flag. if flag = 1 then Get 1 Return else Get 2 Return)),
            write' = None, onMount = None\<rparr>
      else \<lparr>read = Constant (int a * 10), write' = None, onMount = None\<rparr>)"

text \<open>
  \<open>throwingConfig\<close>: atom 0 is a primitive atom; the read function of atom 1 reads it and
  throws; the write function of atom 2 reads atom 0 and throws; the write function of atom 3
  sets atom 3 itself to the update and then throws.
\<close>

definition throwingConfig :: "atom \<Rightarrow> int atomConfig" where
  "throwingConfig a =
     (if a = 1 then \<lparr>read = Compute (Get 0 (\<lambda>v. Throw ''boom'')), write' = None, onMount = None\<rparr>
      else if a = 2 then \<lparr>read = Constant 0, write' = Some (\<lambda>update. WGet 0 (\<lambda>v. Fail ''boom'')),
                          onMount = None\<rparr>
      else if a = 3 then \<lparr>read = Constant 0, write' = Some (\<lambda>update. WSet 3 update (Fail ''boom'')),
                          onMount = None\<rparr>
      else \<lparr>read = Constant 0, write' = None, onMount = None\<rparr>)"

text \<open>
  \<open>asyncConfig\<close>: atom 1 reads the primitive atom 0 and returns a promise.
\<close>

definition asyncConfig :: "atom \<Rightarrow> int atomConfig" where
  "asyncConfig a =
     (if a = 1 then \<lparr>read = Compute (Get 0 (\<lambda>count. ReturnPromise)), write' = None, onMount = None\<rparr>
      else \<lparr>read = Constant 1, write' = None, onMount = None\<rparr>)"

text \<open>
  \<open>branchMountConfig\<close>: the atoms of \<open>branchConfig\<close>, each with a mount callback that returns
  an unmount callback.
\<close>

definition branchMountConfig :: "atom \<Rightarrow> int atomConfig" where
  "branchMountConfig a = (branchConfig a)\<lparr>onMount := Some ReturnsUnmount\<rparr>"

subsection \<open>The mount and unmount callbacks of a store\<close>

text \<open>
  What is to hold of the lifecycle bookkeeping in every state of a store. \<open>pairedOk\<close>: an
  unmount callback is recorded exactly for the mounted atoms whose mount callback returned
  one; for such an atom the mount callback has been called once more than the unmount
  callback while the atom is mounted and equally often while it is not; and no unmount
  callback has been called for an atom whose mount callback returns none.
  \<open>subscribedMounted\<close>: an atom with a subscriber is mounted.
\<close>

definition pairedOk :: "(atom \<Rightarrow> 'v atomConfig) \<Rightarrow> 'v store \<Rightarrow> bool" where
  "pairedOk cfg st \<longleftrightarrow>
     (\<forall>x. (x \<in> unmountCallbacks st \<longleftrightarrow> x \<in> mountedSet st \<and> onMount (cfg x) = Some ReturnsUnmount) \<and>
          (if onMount (cfg x) = Some ReturnsUnmount
           then count_list (callbackLog st) (MountCalled x)
                  = count_list (callbackLog st) (UnmountCalled x) + (if x \<in> mountedSet st then 1 else 0)
           else count_list (callbackLog st) (UnmountCalled x) = 0))"

definition subscribedMounted :: "'v store \<Rightarrow> bool" where
  "subscribedMounted st \<longleftrightarrow> (\<forall>x. 0 < subscribers st x \<longrightarrow> x \<in> mountedSet st)"

definition lifecycleOk :: "(atom \<Rightarrow> 'v atomConfig) \<Rightarrow> 'v store \<Rightarrow> bool" where
  "lifecycleOk cfg st \<longleftrightarrow> pairedOk cfg st \<and> subscribedMounted st"

text \<open>
  What an operation may add to the callback log: only new calls at the end; an unmount
  callback only for an atom that has no subscriber; and no call at all for an atom that was
  mounted and still has a subscriber.
\<close>

definition quietPass :: "'v store \<Rightarrow> 'v store \<Rightarrow> bool" where
  "quietPass st st' \<longleftrightarrow>
     (\<exists>new. callbackLog st' = callbackLog st @ new \<and>
        (\<forall>x. UnmountCalled x \<in> set new \<longrightarrow> subscribers st' x = 0) \<and>
        (\<forall>x. x \<in> mountedSet st \<and> 0 < subscribers st' x \<longrightarrow>
             MountCalled x \<notin> set new \<and> UnmountCalled x \<notin> set new))"

text \<open>The same for a stretch of an operation during which no subscriber count changes.\<close>

definition passOk :: "(atom \<Rightarrow> 'v atomConfig) \<Rightarrow> 'v store \<Rightarrow> 'v store \<Rightarrow> bool" where
  "passOk cfg s s' \<longleftrightarrow>
     subscribers s' = subscribers s \<and>
     (pairedOk cfg s \<longrightarrow> pairedOk cfg s') \<and>
     (\<forall>x. x \<in> mountedSet s \<and> 0 < subscribers s x \<longrightarrow> x \<in> mountedSet s') \<and>
     (\<exists>new. callbackLog s' = callbackLog s @ new \<and>
        (\<forall>x. UnmountCalled x \<in> set new \<longrightarrow> subscribers s x = 0) \<and>
        (\<forall>x. x \<in> mountedSet s \<and> 0 < subscribers s x \<longrightarrow>
             MountCalled x \<notin> set new \<and> UnmountCalled x \<notin> set new))"

text \<open>The operations of the store's interface, as a step from one store state to the next.\<close>

inductive storeOp :: "(atom \<Rightarrow> 'v atomConfig) \<Rightarrow> 'v store \<Rightarrow> 'v store \<Rightarrow> bool"
  for cfg :: "atom \<Rightarrow> 'v atomConfig" where
  opGetValue: "getValue cfg n st a = (res, st') \<Longrightarrow> storeOp cfg st st'"
| opSetValue: "setValue cfg n st a update = (err, st') \<Longrightarrow> storeOp cfg st st'"
| opSettle: "settlePromise cfg n st a p v = (err, st') \<Longrightarrow> storeOp cfg st st'"
| opSubscribe: "subscribe cfg n st a = (err, st') \<Longrightarrow> storeOp cfg st st'"
| opUnsubscribe: "unsubscribe n st a = (err, st') \<Longrightarrow> storeOp cfg st st'"

text \<open>The calls of the mount and unmount callbacks of one atom, in the order of the log.\<close>

definition eventsOf :: "atom \<Rightarrow> lifecycleEvent list \<Rightarrow> lifecycleEvent list" where
  "eventsOf x log = filter (\<lambda>e. e = MountCalled x \<or> e = UnmountCalled x) log"

text \<open>
  A single update pass: one read, one \<open>set\<close> with its propagation, or one promise that is
  settled (with its propagation).
\<close>

inductive updatePass :: "(atom \<Rightarrow> 'v atomConfig) \<Rightarrow> 'v store \<Rightarrow> 'v store \<Rightarrow> bool"
  for cfg :: "atom \<Rightarrow> 'v atomConfig" where
  passRead: "getValue cfg n st a = (res, st') \<Longrightarrow> updatePass cfg st st'"
| passSet: "commitAndPropagate cfg n st a v = (err, st') \<Longrightarrow> updatePass cfg st st'"
| passSettle: "settlePromise cfg n st a p v = (err, st') \<Longrightarrow> updatePass cfg st st'"

section \<open>Properties of the heap, the snapshot, the element writer and atom families\<close>

lemma alloc_fresh: "alloc hp obj = (a, hp') \<Longrightarrow> a = next_addr hp \<and> next_addr hp' = Suc a"
  by (auto simp: alloc_def)

lemma alloc_cells:
  "alloc hp obj = (a, hp') \<Longrightarrow> cells hp' a = obj \<and> (\<forall>b. b \<noteq> a \<longrightarrow> cells hp' b = cells hp b)"
  by (auto simp: alloc_def)

lemma find_append_miss: "find P xs = None \<Longrightarrow> find P (xs @ ys) = find P ys"
  by (induction xs) (auto split: if_splits)

lemma find_SomeD: "find P xs = Some x \<Longrightarrow> x \<in> set xs \<and> P x"
  by (induction xs) (auto split: if_splits)

lemma find_filter_neg: "find P (filter (\<lambda>x. \<not> P x) xs) = None"
  by (induction xs) auto

lemma equal_keys_same_matches:
  assumes "equivp eq" and "eq p q"
  shows "eq k p = eq k q"
proof -
  from assms(1) have s: "symp eq" and t: "transp eq"
    by (auto elim: equivpE)
  from s assms(2) have qp: "eq q p" by (rule sympD)
  show ?thesis
  proof
    assume "eq k p" from t this assms(2) show "eq k q" by (rule transpD)
  next
    assume "eq k q" from t this qp show "eq k p" by (rule transpD)
  qed
qed

lemma createAtom_miss:
  "find (\<lambda>entry. areEqual fam (fst entry) p) (atoms fam) = None \<Longrightarrow>
   createAtom fam hp p =
     (next_addr hp, fam\<lparr>atoms := atoms fam @ [(p, next_addr hp)]\<rparr>,
      hp\<lparr>cells := (cells hp)(next_addr hp := initializeAtom fam p), next_addr := Suc (next_addr hp)\<rparr>)"
  by (simp add: createAtom_def alloc_def)

lemma createAtom_hit:
  "find (\<lambda>entry. areEqual fam (fst entry) p) (atoms fam) = Some entry \<Longrightarrow>
   createAtom fam hp p = (snd entry, fam, hp)"
  by (simp add: createAtom_def)

lemma createAtom_areEqual: "createAtom fam hp p = (a, fam', hp') \<Longrightarrow> areEqual fam' = areEqual fam"
  by (auto simp: createAtom_def alloc_def split: option.splits)

lemma createAtom_repeat:
  assumes eq: "equivp (areEqual fam)" and pq: "areEqual fam p q"
    and c: "createAtom fam hp p = (a, fam', hp')"
  shows "createAtom fam' hp' q = (a, fam', hp')"
proof (cases "find (\<lambda>entry. areEqual fam (fst entry) p) (atoms fam)")
  case (Some entry)
  have same: "find (\<lambda>entry. areEqual fam (fst entry) q) (atoms fam) = Some entry"
    using Some equal_keys_same_matches[OF eq pq] by simp
  from Some c have "a = snd entry" "fam' = fam" "hp' = hp"
    by (simp_all add: createAtom_hit)
  with same show ?thesis by (simp add: createAtom_hit)
next
  case None
  have noq: "find (\<lambda>entry. areEqual fam (fst entry) q) (atoms fam) = None"
    using None equal_keys_same_matches[OF eq pq] by simp
  from None c have a: "a = next_addr hp"
    and f: "fam' = fam\<lparr>atoms := atoms fam @ [(p, next_addr hp)]\<rparr>"
    by (auto simp: createAtom_miss)
  have "find (\<lambda>entry. areEqual fam' (fst entry) q) (atoms fam') = Some (p, a)"
    using noq pq by (simp add: f a find_append_miss)
  then show ?thesis by (simp add: createAtom_hit)
qed

lemma createAtom_wf:
  assumes "family_wf fam hp" and "createAtom fam hp p = (a, fam', hp')"
  shows "family_wf fam' hp' \<and> a < next_addr hp' \<and> next_addr hp \<le> next_addr hp'"
proof (cases "find (\<lambda>entry. areEqual fam (fst entry) p) (atoms fam)")
  case (Some entry)
  from find_SomeD[OF Some] have "entry \<in> set (atoms fam)" by simp
  with assms Some show ?thesis
    by (auto simp: createAtom_hit family_wf_def list_all_iff)
next
  case None
  with assms show ?thesis
    by (fastforce simp: createAtom_miss family_wf_def list_all_iff)
qed

lemma remove_wf: "family_wf fam hp \<Longrightarrow> family_wf (remove fam p) hp"
  by (simp add: family_wf_def remove_def list_all_iff distinct_map_filter)

lemma createAtom_after_remove:
  "createAtom (remove fam p) hp p =
     (next_addr hp, (remove fam p)\<lparr>atoms := atoms (remove fam p) @ [(p, next_addr hp)]\<rparr>,
      hp\<lparr>cells := (cells hp)(next_addr hp := initializeAtom fam p), next_addr := Suc (next_addr hp)\<rparr>)"
proof -
  have "find (\<lambda>entry. areEqual (remove fam p) (fst entry) p) (atoms (remove fam p)) = None"
    by (simp add: remove_def find_filter_neg)
  then show ?thesis
    by (simp add: createAtom_miss) (simp add: remove_def)
qed



lemma createAtom_entry:
  assumes "createAtom fam hp p = (a, fam', hp')"
  shows "\<exists>k. (k, a) \<in> set (atoms fam') \<and> (k = p \<or> areEqual fam k p)"
proof (cases "find (\<lambda>entry. areEqual fam (fst entry) p) (atoms fam)")
  case (Some entry)
  from find_SomeD[OF Some] have "entry \<in> set (atoms fam)" "areEqual fam (fst entry) p"
    by simp_all
  moreover from Some assms have "a = snd entry" "fam' = fam"
    by (simp_all add: createAtom_hit)
  ultimately have "(fst entry, a) \<in> set (atoms fam')" "areEqual fam (fst entry) p"
    by simp_all
  then show ?thesis by blast
next
  case None
  with assms show ?thesis by (auto simp: createAtom_miss)
qed

lemma createAtom_keeps:
  assumes "createAtom fam hp p = (a, fam', hp')" and "entry \<in> set (atoms fam)"
  shows "entry \<in> set (atoms fam')"
  using assms by (auto simp: createAtom_def alloc_def split: option.splits)

lemma wf_distinct_entries:
  assumes "family_wf fam hp" and "(k1, a1) \<in> set (atoms fam)" and "(k2, a2) \<in> set (atoms fam)"
    and "k1 \<noteq> k2"
  shows "a1 \<noteq> a2"
proof -
  from assms(1) have "inj_on snd (set (atoms fam))"
    by (simp add: family_wf_def distinct_map)
  from inj_onD[OF this _ assms(2,3)] assms(4) show ?thesis by auto
qed

lemma defaultEqual_Obj: "defaultEqual k (Obj r c) \<Longrightarrow> \<exists>c'. k = Obj r c'"
  by (cases k) auto

lemma default_family_distinct_objects:
  assumes wf: "family_wf fam hp" and eq: "areEqual fam = defaultEqual" and ne: "r1 \<noteq> r2"
    and c1: "createAtom fam hp (Obj r1 c) = (a1, fam1, hp1)"
    and c2: "createAtom fam1 hp1 (Obj r2 c) = (a2, fam2, hp2)"
  shows "a1 \<noteq> a2"
proof -
  have eq1: "areEqual fam1 = defaultEqual"
    using createAtom_areEqual[OF c1] eq by simp
  from createAtom_entry[OF c1] obtain k1 where
    k1: "(k1, a1) \<in> set (atoms fam1)" "k1 = Obj r1 c \<or> defaultEqual k1 (Obj r1 c)"
    using eq by auto
  from createAtom_entry[OF c2] obtain k2 where
    k2: "(k2, a2) \<in> set (atoms fam2)" "k2 = Obj r2 c \<or> defaultEqual k2 (Obj r2 c)"
    using eq1 by auto
  from k1(2) obtain c1' where "k1 = Obj r1 c1'" by (auto dest: defaultEqual_Obj)
  moreover from k2(2) obtain c2' where "k2 = Obj r2 c2'" by (auto dest: defaultEqual_Obj)
  ultimately have "k1 \<noteq> k2" using ne by simp
  have wf2: "family_wf fam2 hp2"
    using createAtom_wf[OF _ c2] createAtom_wf[OF wf c1] by simp
  from wf_distinct_entries[OF wf2 createAtom_keeps[OF c2 k1(1)] k2(1) \<open>k1 \<noteq> k2\<close>]
  show ?thesis .
qed


text \<open>
  Claim C10. \<open>f.remove(q)\<close> for a \<open>q\<close> that equals no cached parameter leaves the cache as it
  is, so every later \<open>f(p)\<close> returns what it would have returned without the removal.
\<close>

theorem remove_unrelated_keeps_cache:
  assumes "\<forall>entry \<in> set (atoms fam). \<not> areEqual fam (fst entry) q"
  shows "remove fam q = fam \<and> createAtom (remove fam q) hp p = createAtom fam hp p"
proof -
  have "filter (\<lambda>entry. \<not> areEqual fam (fst entry) q) (atoms fam) = atoms fam"
    using assms by (simp add: filter_id_conv)
  then have "remove fam q = fam" by (simp add: remove_def)
  then show ?thesis by simp
qed

text \<open>
  Claim C9. \<open>getState\<close> returns a new object, distinct from the state object, with the same
  top-level entries, and every object that existed before, the state object included, is
  unchanged.
\<close>

theorem getState_shallow_copy:
  assumes "state < next_addr hp" and "getState hp state = (snapshot, hp')"
  shows "snapshot \<noteq> state \<and> cells hp' snapshot = cells hp state \<and>
         (\<forall>b. b < next_addr hp \<longrightarrow> cells hp' b = cells hp b)"
  using assms by (auto simp: getState_def alloc_def)

lemma writeElement_in_range:
  assumes "arr < next_addr hp" and "0 \<le> param" and "param < int (length (cells hp arr))"
    and "writeElement param update (hp, arr) = (hp', arr')"
  shows "arr' \<noteq> arr \<and>
         length (cells hp' arr') = length (cells hp arr) \<and>
         cells hp' arr' ! nat param = applyAction update (cells hp arr ! nat param) \<and>
         (\<forall>j. j < length (cells hp arr) \<and> j \<noteq> nat param \<longrightarrow> cells hp' arr' ! j = cells hp arr ! j) \<and>
         (\<forall>b. b < next_addr hp \<longrightarrow> cells hp' b = cells hp b)"
proof -
  let ?old = "cells hp arr"
  let ?i = "nat param"
  let ?new = "take ?i ?old @ [applyAction update (?old ! ?i)] @ drop (?i + 1) ?old"
  from assms(2,3) have i: "?i < length ?old" by simp
  have "\<not> isUndefinedAt ?old param" using assms(2,3) by (simp add: isUndefinedAt_def)
  with assms(4) have r: "arr' = next_addr hp"
    and h: "hp' = hp\<lparr>cells := (cells hp)(next_addr hp := ?new), next_addr := Suc (next_addr hp)\<rparr>"
    by (auto simp: writeElement_def elementUpdater_def alloc_def Let_def)
  have new: "cells hp' arr' = ?new" by (simp add: r h)
  have len: "length ?new = length ?old" using i by simp
  have at: "?new ! ?i = applyAction update (?old ! ?i)"
    using i by (simp add: nth_append)
  have others: "?new ! j = ?old ! j" if "j < length ?old" "j \<noteq> ?i" for j
  proof (cases "j < ?i")
    case True
    then show ?thesis using i by (simp add: nth_append)
  next
    case False
    with that have "?i < j" by simp
    then have "\<exists>d. j = Suc (?i + d)" by (rule less_imp_Suc_add)
    then obtain d where d: "j = Suc (?i + d)" ..
    have "?i \<le> length ?old" using i by simp
    then have lt: "length (take ?i ?old) = ?i" by simp
    have "?new ! j = (applyAction update (?old ! ?i) # drop (?i + 1) ?old) ! (j - ?i)"
      using lt False by (simp add: nth_append)
    also have "\<dots> = drop (?i + 1) ?old ! d" using d by simp
    also have "\<dots> = ?old ! j" using d that(1) by simp
    finally show ?thesis .
  qed
  show ?thesis
    using assms(1) new len at others by (simp add: r h)
qed

text \<open>
  Claim C7 as stated fails outside the array: the element atom for index 5 of a three-element
  array writes nothing, and the result is the original array, not a new one.
\<close>

theorem writeElement_outside_counterexample:
  "writeElement 5 (Plain 7) (\<lparr>cells = (\<lambda>_. [0, 0, 0::int]), next_addr = 1\<rparr>, 0)
     = (\<lparr>cells = (\<lambda>_. [0, 0, 0::int]), next_addr = 1\<rparr>, 0)"
  by (simp add: writeElement_def elementUpdater_def isUndefinedAt_def)


lemma writeElement_outside:
  assumes "param < 0 \<or> int (length (cells hp arr)) \<le> param"
  shows "writeElement param update (hp, arr) = (hp, arr)"
  using assms by (simp add: writeElement_def elementUpdater_def isUndefinedAt_def)

text \<open>
  Claim C7, as amended. When \<open>param\<close> is an index of the current array, the write builds a new
  array of the same length in which position \<open>param\<close> holds the new value and every other
  position holds its previous value, and no array that existed before is changed. When
  \<open>param\<close> is not an index of the current array (\<open>oldArray[param]\<close> is \<open>undefined\<close>), the
  guard returns \<open>oldArray\<close> itself and nothing is written.
\<close>

theorem writeElement_replaces_one_slot:
  assumes "arr < next_addr hp" and "writeElement param update (hp, arr) = (hp', arr')"
  shows "(0 \<le> param \<and> param < int (length (cells hp arr)) \<longrightarrow>
           arr' \<noteq> arr \<and>
           length (cells hp' arr') = length (cells hp arr) \<and>
           cells hp' arr' ! nat param = applyAction update (cells hp arr ! nat param) \<and>
           (\<forall>j. j < length (cells hp arr) \<and> j \<noteq> nat param \<longrightarrow>
                cells hp' arr' ! j = cells hp arr ! j) \<and>
           (\<forall>b. b < next_addr hp \<longrightarrow> cells hp' b = cells hp b)) \<and>
         (param < 0 \<or> int (length (cells hp arr)) \<le> param \<longrightarrow> hp' = hp \<and> arr' = arr)"
proof (intro conjI impI)
  assume "param < 0 \<or> int (length (cells hp arr)) \<le> param"
  from writeElement_outside[OF this] assms(2) show "hp' = hp" "arr' = arr" by simp_all
next
  assume r: "0 \<le> param \<and> param < int (length (cells hp arr))"
  then have r1: "0 \<le> param" and r2: "param < int (length (cells hp arr))" by simp_all
  note w = writeElement_in_range[OF assms(1) r1 r2 assms(2)]
  from w show "arr' \<noteq> arr" by simp
  from w show "length (cells hp' arr') = length (cells hp arr)" by simp
  from w show "cells hp' arr' ! nat param = applyAction update (cells hp arr ! nat param)" by simp
  from w show "\<forall>j. j < length (cells hp arr) \<and> j \<noteq> nat param \<longrightarrow>
                cells hp' arr' ! j = cells hp arr ! j" by simp
  from w show "\<forall>b. b < next_addr hp \<longrightarrow> cells hp' b = cells hp b" by simp
qed

lemma equivp_sameIndex: "equivp sameIndex"
  by (rule equivpI) (auto simp: reflp_def symp_def transp_def sameIndex_def)

lemma equivp_defaultEqual: "equivp (defaultEqual :: 'v param \<Rightarrow> 'v param \<Rightarrow> bool)"
proof (rule equivpI)
  show "reflp (defaultEqual :: 'v param \<Rightarrow> 'v param \<Rightarrow> bool)"
    unfolding reflp_def
  proof
    fix p :: "'v param" show "defaultEqual p p" by (cases p) simp_all
  qed
  show "symp (defaultEqual :: 'v param \<Rightarrow> 'v param \<Rightarrow> bool)"
    unfolding symp_def
  proof (intro allI impI)
    fix p q :: "'v param" assume "defaultEqual p q"
    then show "defaultEqual q p" by (cases p; cases q) simp_all
  qed
  show "transp (defaultEqual :: 'v param \<Rightarrow> 'v param \<Rightarrow> bool)"
    unfolding transp_def
  proof (intro allI impI)
    fix p q r :: "'v param" assume "defaultEqual p q" "defaultEqual q r"
    then show "defaultEqual p r" by (cases p; cases q; cases r) simp_all
  qed
qed

lemma family_wf_empty: "family_wf (atomFamily init eq) hp"
  by (simp add: family_wf_def atomFamily_def)



theorem remove_unrelated_keeps_cache_witness:
  "let fam = (atomFamily (\<lambda>p. p) None :: (nat param, nat param) family)\<lparr>atoms := [(Prim 0, 0)]\<rparr>;
       hp = \<lparr>cells = (\<lambda>_. Prim 0), next_addr = 1\<rparr>
   in (\<forall>entry \<in> set (atoms fam). \<not> areEqual fam (fst entry) (Prim 1337)) \<and>
      remove fam (Prim 1337) = fam \<and>
      createAtom (remove fam (Prim 1337)) hp (Prim 0) = (0, fam, hp)"
proof -
  define fam where
    "fam = (atomFamily (\<lambda>p. p) None :: (nat param, nat param) family)\<lparr>atoms := [(Prim 0, 0)]\<rparr>"
  define hp where "hp = \<lparr>cells = (\<lambda>_. Prim (0::nat)), next_addr = 1\<rparr>"
  have h: "\<forall>entry \<in> set (atoms fam). \<not> areEqual fam (fst entry) (Prim 1337)"
    by (simp add: fam_def atomFamily_def)
  have c: "createAtom fam hp (Prim 0) = (0, fam, hp)"
    by (simp add: createAtom_def fam_def atomFamily_def)
  from remove_unrelated_keeps_cache[OF h, of hp "Prim 0"] h c
  show ?thesis by (simp add: fam_def hp_def)
qed

theorem getState_shallow_copy_witness:
  "let hp = \<lparr>cells = (\<lambda>a. if a = 0 then [(''v'', 1::nat)] else []), next_addr = 1\<rparr>
   in (0::nat) < next_addr hp \<and>
      (case getState hp 0 of (snapshot, hp') \<Rightarrow>
         snapshot \<noteq> 0 \<and> cells hp' snapshot = cells hp 0 \<and>
         (\<forall>b. b < next_addr hp \<longrightarrow> cells hp' b = cells hp b))"
proof -
  define hp where "hp = \<lparr>cells = (\<lambda>a::nat. if a = 0 then [(''v'', 1::nat)] else []), next_addr = 1\<rparr>"
  have v: "0 < next_addr hp" by (simp add: hp_def)
  obtain snapshot hp' where g: "getState hp 0 = (snapshot, hp')"
    by (cases "getState hp 0")
  from getState_shallow_copy[OF v g] v g show ?thesis by (simp add: hp_def)
qed

theorem writeElement_replaces_one_slot_witness:
  "let hp = \<lparr>cells = (\<lambda>_. [0, 0, 0::int]), next_addr = 1\<rparr>
   in (0::nat) < next_addr hp \<and>
      (case writeElement 1 (Updater (\<lambda>oldValue. oldValue + 1)) (hp, 0) of (hp', arr') \<Rightarrow>
         arr' \<noteq> 0 \<and> cells hp' arr' = [0, 1, 0] \<and> cells hp' 0 = [0, 0, 0])"
proof -
  define hp where "hp = \<lparr>cells = (\<lambda>_::nat. [0, 0, 0::int]), next_addr = 1\<rparr>"
  have v: "0 < next_addr hp" by (simp add: hp_def)
  obtain hp' arr' where w: "writeElement 1 (Updater (\<lambda>oldValue. oldValue + 1)) (hp, 0) = (hp', arr')"
    by (cases "writeElement 1 (Updater (\<lambda>oldValue. oldValue + 1)) (hp, 0)")
  have len: "length (cells hp 0) = 3" and c0: "cells hp 0 = [0, 0, 0]" by (simp_all add: hp_def)
  from writeElement_replaces_one_slot[OF v w] have
    p: "arr' \<noteq> 0" "length (cells hp' arr') = 3"
       "cells hp' arr' ! 1 = 1"
       "\<forall>j. j < 3 \<and> j \<noteq> 1 \<longrightarrow> cells hp' arr' ! j = [0, 0, 0::int] ! j"
       "cells hp' 0 = cells hp 0"
    using v by (simp_all add: len c0 applyAction_def)
  from p(4) have "cells hp' arr' ! 0 = 0" "cells hp' arr' ! Suc (Suc 0) = 0"
    by (simp_all add: numeral_2_eq_2)
  with p(2,3) have "cells hp' arr' = [0, 1, 0]"
    by (simp add: list_eq_iff_nth_eq less_Suc_eq numeral_3_eq_3)
  with p(1,5) v w c0 show ?thesis by (simp add: hp_def)
qed

section \<open>Properties of the atom store\<close>

lemma setDependencies_simps [simp]:
  "valueMap (setDependencies st a deps) = valueMap st"
  "dependencyMap (setDependencies st a deps) = (dependencyMap st)(a := deps)"
  "mountedSet (setDependencies st a deps) = mountedSet st"
  "pendingPromiseMap (setDependencies st a deps) = pendingPromiseMap st"
  "nextPromise (setDependencies st a deps) = nextPromise st"
  "subscribers (setDependencies st a deps) = subscribers st"
  "unmountCallbacks (setDependencies st a deps) = unmountCallbacks st"
  "callbackLog (setDependencies st a deps) = callbackLog st"
  by (simp_all add: setDependencies_def)

lemma commitValue_simps [simp]:
  "valueMap (commitValue st a v deps) = (valueMap st)(a \<mapsto> Resolved v)"
  "dependencyMap (commitValue st a v deps) = (dependencyMap st)(a := deps)"
  "mountedSet (commitValue st a v deps) = mountedSet st"
  "pendingPromiseMap (commitValue st a v deps) = pendingPromiseMap st"
  "nextPromise (commitValue st a v deps) = nextPromise st"
  "subscribers (commitValue st a v deps) = subscribers st"
  "unmountCallbacks (commitValue st a v deps) = unmountCallbacks st"
  "callbackLog (commitValue st a v deps) = callbackLog st"
  by (simp_all add: commitValue_def)

lemma issuePromise_simps [simp]:
  "valueMap (issuePromise st a deps) = (valueMap st)(a \<mapsto> Pending (nextPromise st))"
  "dependencyMap (issuePromise st a deps) = (dependencyMap st)(a := deps)"
  "mountedSet (issuePromise st a deps) = mountedSet st"
  "pendingPromiseMap (issuePromise st a deps) = (pendingPromiseMap st)(a \<mapsto> nextPromise st)"
  "nextPromise (issuePromise st a deps) = Suc (nextPromise st)"
  "subscribers (issuePromise st a deps) = subscribers st"
  "unmountCallbacks (issuePromise st a deps) = unmountCallbacks st"
  "callbackLog (issuePromise st a deps) = callbackLog st"
  by (simp_all add: issuePromise_def)

lemma mountOne_simps [simp]:
  "valueMap (mountOne cfg x st) = valueMap st"
  "dependencyMap (mountOne cfg x st) = dependencyMap st"
  "dependentMap (mountOne cfg x st) = dependentMap st"
  "pendingPromiseMap (mountOne cfg x st) = pendingPromiseMap st"
  "nextPromise (mountOne cfg x st) = nextPromise st"
  "subscribers (mountOne cfg x st) = subscribers st"
  by (simp_all add: mountOne_def)

lemma unmountOne_simps [simp]:
  "valueMap (unmountOne x st) = valueMap st"
  "dependencyMap (unmountOne x st) = dependencyMap st"
  "dependentMap (unmountOne x st) = dependentMap st"
  "pendingPromiseMap (unmountOne x st) = pendingPromiseMap st"
  "nextPromise (unmountOne x st) = nextPromise st"
  "subscribers (unmountOne x st) = subscribers st"
  by (simp_all add: unmountOne_def)

lemma resolved_mountOne [simp]: "resolved (mountOne cfg x st) = resolved st"
  by (rule ext) (simp add: resolved_def)

lemma resolved_unmountOne [simp]: "resolved (unmountOne x st) = resolved st"
  by (rule ext) (simp add: resolved_def)

lemma resolved_commitValue:
  "resolved (commitValue st a v deps) = (resolved st)(a \<mapsto> v)"
  by (rule ext) (simp add: resolved_def)

lemma resolved_issuePromise:
  "resolved (issuePromise st a deps) = (resolved st)(a := None)"
  by (rule ext) (simp add: resolved_def)

lemma resolved_unset: "valueMap st a = None \<Longrightarrow> resolved st a = None"
  by (simp add: resolved_def)

lemma resolved_Some: "resolved st a = Some v \<longleftrightarrow> valueMap st a = Some (Resolved v)"
  by (auto simp: resolved_def split: option.splits valueState.splits)

lemma evalOf_mono:
  "g \<subseteq>\<^sub>m g' \<Longrightarrow> evalOf g r = Some en \<Longrightarrow> evalOf g' r = Some en \<and> readsOf g' r = readsOf g r"
proof (induction r)
  case (Get d k)
  from Get.prems(2) obtain v where gd: "g d = Some v" and ev: "evalOf g (k v) = Some en"
    by (auto split: option.splits)
  from Get.prems(1) gd have g'd: "g' d = Some v"
    by (auto simp: map_le_def dom_def)
  have "k v \<in> range k" by simp
  from Get.IH[OF this Get.prems(1) ev] gd g'd show ?case by simp
qed simp_all

lemma outcomeOf_mono:
  "g \<subseteq>\<^sub>m g' \<Longrightarrow> outcomeOf g c = Some en \<Longrightarrow>
   outcomeOf g' c = Some en \<and> dependenciesOf g' c = dependenciesOf g c"
  by (auto simp: outcomeOf_def dependenciesOf_def split: readSpec.splits dest: evalOf_mono)


lemma rstep_valueMap_keeps:
  "rstep cfg cs s s' \<Longrightarrow> valueMap s x = Some y \<Longrightarrow> valueMap s' x = Some y"
  by (induction rule: rstep.induct) auto

lemma rstep_computing_unchanged:
  "rstep cfg cs s s' \<Longrightarrow> x \<in> cs \<Longrightarrow>
   valueMap s' x = valueMap s x \<and> dependencyMap s' x = dependencyMap s x"
  by (induction rule: rstep.induct) auto

lemma rstep_nextPromise: "rstep cfg cs s s' \<Longrightarrow> nextPromise s \<le> nextPromise s'"
  by (induction rule: rstep.induct) auto

lemma rstep_subscribers: "rstep cfg cs s s' \<Longrightarrow> subscribers s' = subscribers s"
  by (induction rule: rstep.induct) auto

lemma fresh_cong:
  "valueMap s' x = valueMap s x \<Longrightarrow> dependencyMap s' x = dependencyMap s x \<Longrightarrow>
   resolved s' = resolved s \<Longrightarrow> fresh cfg s' x = fresh cfg s x"
  by (simp add: fresh_def split: option.splits valueState.splits)

lemma fresh_mono:
  assumes le: "resolved s \<subseteq>\<^sub>m resolved s'" and vm: "valueMap s' x = valueMap s x"
    and dm: "dependencyMap s' x = dependencyMap s x" and f: "fresh cfg s x"
  shows "fresh cfg s' x"
proof (cases "valueMap s x")
  case None
  with vm show ?thesis by (simp add: fresh_def)
next
  case (Some vs)
  show ?thesis
  proof (cases vs)
    case (Resolved v)
    with Some f have "outcomeOf (resolved s) (cfg x) = Some (Ends v)"
      and d: "set (dependencyMap s x) = dependenciesOf (resolved s) (cfg x)"
      by (simp_all add: fresh_def)
    from outcomeOf_mono[OF le this(1)] d Some Resolved vm dm show ?thesis
      by (simp add: fresh_def)
  next
    case (Pending p)
    with Some f have "outcomeOf (resolved s) (cfg x) = Some EndsPromise"
      and d: "set (dependencyMap s x) = dependenciesOf (resolved s) (cfg x)"
      by (simp_all add: fresh_def)
    from outcomeOf_mono[OF le this(1)] d Some Pending vm dm show ?thesis
      by (simp add: fresh_def)
  qed
qed

lemma rstep_fresh:
  assumes "rstep cfg cs s s'" and "fresh cfg s x"
  shows "fresh cfg s' x"
  using assms
proof (induction rule: rstep.induct)
  case (commit a st v deps)
  have le: "resolved st \<subseteq>\<^sub>m resolved (commitValue st a v deps)"
    using commit.hyps(2) by (auto simp: map_le_def resolved_commitValue domIff dest!: resolved_unset)
  show ?case
  proof (cases "x = a")
    case True
    from outcomeOf_mono[OF le commit.hyps(3)] commit.hyps(4) show ?thesis
      by (simp add: fresh_def True)
  next
    case False
    then have 1: "valueMap (commitValue st a v deps) x = valueMap st x"
      and 2: "dependencyMap (commitValue st a v deps) x = dependencyMap st x"
      by simp_all
    from le 1 2 commit.prems show ?thesis by (rule fresh_mono)
  qed
next
  case (issue a st deps)
  have eq: "resolved (issuePromise st a deps) = resolved st"
    using issue.hyps(2) by (auto simp: resolved_issuePromise resolved_unset)
  show ?case
  proof (cases "x = a")
    case True
    with issue.hyps show ?thesis by (simp add: fresh_def eq)
  next
    case False
    then have 1: "valueMap (issuePromise st a deps) x = valueMap st x"
      and 2: "dependencyMap (issuePromise st a deps) x = dependencyMap st x"
      by simp_all
    from fresh_cong[OF 1 2 eq] issue.prems show ?thesis by simp
  qed
next
  case (mount st x')
  have "fresh cfg (mountOne cfg x' st) x = fresh cfg st x"
    by (rule fresh_cong) simp_all
  with mount show ?case by simp
next
  case (unmount st x')
  have "fresh cfg (unmountOne x' st) x = fresh cfg st x"
    by (rule fresh_cong) simp_all
  with unmount show ?case by simp
qed

lemma rstep_cs_mono: "rstep cfg cs s s' \<Longrightarrow> cs' \<subseteq> cs \<Longrightarrow> rstep cfg cs' s s'"
  by (induction rule: rstep.induct) (auto intro: rstep.intros)

lemma rsteps_computing_mono:
  "(rstep cfg cs)\<^sup>*\<^sup>* s s' \<Longrightarrow> cs' \<subseteq> cs \<Longrightarrow> (rstep cfg cs')\<^sup>*\<^sup>* s s'"
  by (induction rule: rtranclp_induct) (auto intro: rtranclp.rtrancl_into_rtrancl rstep_cs_mono)

lemma rsteps_valueMap_keeps:
  "(rstep cfg cs)\<^sup>*\<^sup>* s s' \<Longrightarrow> valueMap s x = Some y \<Longrightarrow> valueMap s' x = Some y"
  by (induction rule: rtranclp_induct) (auto dest: rstep_valueMap_keeps)

lemma rsteps_computing_unchanged:
  "(rstep cfg cs)\<^sup>*\<^sup>* s s' \<Longrightarrow> x \<in> cs \<Longrightarrow>
   valueMap s' x = valueMap s x \<and> dependencyMap s' x = dependencyMap s x"
  by (induction rule: rtranclp_induct) (auto dest: rstep_computing_unchanged)

lemma rsteps_nextPromise: "(rstep cfg cs)\<^sup>*\<^sup>* s s' \<Longrightarrow> nextPromise s \<le> nextPromise s'"
  by (induction rule: rtranclp_induct) (auto dest: rstep_nextPromise)

lemma rsteps_subscribers: "(rstep cfg cs)\<^sup>*\<^sup>* s s' \<Longrightarrow> subscribers s' = subscribers s"
  by (induction rule: rtranclp_induct) (auto dest: rstep_subscribers)

lemma rsteps_fresh: "(rstep cfg cs)\<^sup>*\<^sup>* s s' \<Longrightarrow> fresh cfg s x \<Longrightarrow> fresh cfg s' x"
  by (induction rule: rtranclp_induct) (auto dest: rstep_fresh)

lemma rsteps_resolved_keeps:
  "(rstep cfg cs)\<^sup>*\<^sup>* s s' \<Longrightarrow> resolved s x = Some v \<Longrightarrow> resolved s' x = Some v"
  by (auto simp: resolved_Some dest: rsteps_valueMap_keeps)

lemma fold_mountOne_steps: "(rstep cfg cs)\<^sup>*\<^sup>* st (fold (mountOne cfg) xs st)"
proof (induction xs arbitrary: st)
  case (Cons x xs)
  have "rstep cfg cs st (mountOne cfg x st)" by (rule rstep.mount)
  with Cons[of "mountOne cfg x st"] show ?case
    by (simp add: converse_rtranclp_into_rtranclp)
qed simp

lemma fold_unmountOne_steps: "(rstep cfg cs)\<^sup>*\<^sup>* st (fold unmountOne xs st)"
proof (induction xs arbitrary: st)
  case (Cons x xs)
  have "rstep cfg cs st (unmountOne x st)" by (rule rstep.unmount)
  with Cons[of "unmountOne x st"] show ?case
    by (simp add: converse_rtranclp_into_rtranclp)
qed simp

lemma fold_mountOne_fields [simp]:
  "valueMap (fold (mountOne cfg) xs st) = valueMap st"
  "dependencyMap (fold (mountOne cfg) xs st) = dependencyMap st"
  "dependentMap (fold (mountOne cfg) xs st) = dependentMap st"
  "pendingPromiseMap (fold (mountOne cfg) xs st) = pendingPromiseMap st"
  "nextPromise (fold (mountOne cfg) xs st) = nextPromise st"
  "subscribers (fold (mountOne cfg) xs st) = subscribers st"
  by (induction xs arbitrary: st) simp_all

lemma fold_unmountOne_fields [simp]:
  "valueMap (fold unmountOne xs st) = valueMap st"
  "dependencyMap (fold unmountOne xs st) = dependencyMap st"
  "dependentMap (fold unmountOne xs st) = dependentMap st"
  "pendingPromiseMap (fold unmountOne xs st) = pendingPromiseMap st"
  "nextPromise (fold unmountOne xs st) = nextPromise st"
  "subscribers (fold unmountOne xs st) = subscribers st"
  by (induction xs arbitrary: st) simp_all

text \<open>finishRead either fails without having committed, or keeps the committed maps.\<close>

lemma finishRead_cases:
  assumes "finishRead cfg n st1 a res st2 = (res', st')"
  shows "(res' = Failed RecursionLimit \<and> st' = st1) \<or>
         (res' = res \<and> (rstep cfg cs)\<^sup>*\<^sup>* st2 st' \<and> valueMap st' = valueMap st2 \<and>
          dependencyMap st' = dependencyMap st2 \<and> dependentMap st' = dependentMap st2 \<and>
          pendingPromiseMap st' = pendingPromiseMap st2 \<and> nextPromise st' = nextPromise st2)"
proof (cases "a \<in> mountedSet st1")
  case False
  with assms show ?thesis by (simp add: finishRead_def)
next
  case True
  show ?thesis
  proof (cases "closure n (dependencyMap st2) (dependencyMap st2 a)")
    case None
    with True assms show ?thesis by (simp add: finishRead_def)
  next
    case (Some ms)
    show ?thesis
    proof (cases "closure n (dependencyMap st2)
                    (filter (\<lambda>d. d \<notin> set (dependencyMap st2 a)) (dependencyMap st1 a))")
      case None
      with True Some assms show ?thesis by (simp add: finishRead_def)
    next
      case (Some us)
      with True \<open>closure n (dependencyMap st2) (dependencyMap st2 a) = Some ms\<close> assms
      have r: "res' = res" and s: "st' = fold unmountOne us (fold (mountOne cfg) ms st2)"
        by (simp_all add: finishRead_def)
      have "(rstep cfg cs)\<^sup>*\<^sup>* st2 (fold (mountOne cfg) ms st2)"
        by (rule fold_mountOne_steps)
      moreover have "(rstep cfg cs)\<^sup>*\<^sup>* (fold (mountOne cfg) ms st2) st'"
        unfolding s by (rule fold_unmountOne_steps)
      ultimately have "(rstep cfg cs)\<^sup>*\<^sup>* st2 st'" by (rule rtranclp_trans)
      with r show ?thesis by (simp add: s)
    qed
  qed
qed

lemma runRead_steps:
  assumes ok: "readerOk cfg cs get"
  shows "runRead get r st deps = (out, st1, deps') \<Longrightarrow>
         (rstep cfg cs)\<^sup>*\<^sup>* st st1 \<and>
         (case out of
            Returns v \<Rightarrow> evalOf (resolved st1) r = Some (Ends v) \<and>
                         set deps' = set deps \<union> readsOf (resolved st1) r
          | ReturnsPromise \<Rightarrow> evalOf (resolved st1) r = Some EndsPromise \<and>
                         set deps' = set deps \<union> readsOf (resolved st1) r
          | Throws e \<Rightarrow> evalOf (resolved st1) r = None \<or>
                         (\<exists>s. evalOf (resolved st1) r = Some (EndsThrow s) \<and> e = Thrown s)
          | Suspends p \<Rightarrow> evalOf (resolved st1) r = None \<and>
                         (\<exists>x. valueMap st1 x = Some (Pending p)))"
proof (induction r arbitrary: st deps)
  case (Get d k)
  obtain res s1 where g: "get st d = (res, s1)" by (cases "get st d")
  from ok g have steps1: "(rstep cfg cs)\<^sup>*\<^sup>* st s1"
    and res1: "resolved s1 d = (case res of Value v \<Rightarrow> Some v | _ \<Rightarrow> None)"
    and pend1: "\<And>p. res = PendingMarker p \<Longrightarrow> \<exists>x. valueMap s1 x = Some (Pending p)"
    unfolding readerOk_def by blast+
  show ?case
  proof (cases res)
    case (Value v)
    with Get.prems g have run: "runRead get (k v) s1 (List.insert d deps) = (out, st1, deps')"
      by simp
    have "k v \<in> range k" by simp
    from Get.IH[OF this run] have steps2: "(rstep cfg cs)\<^sup>*\<^sup>* s1 st1"
      and rest: "(case out of
            Returns v' \<Rightarrow> evalOf (resolved st1) (k v) = Some (Ends v') \<and>
                         set deps' = set (List.insert d deps) \<union> readsOf (resolved st1) (k v)
          | ReturnsPromise \<Rightarrow> evalOf (resolved st1) (k v) = Some EndsPromise \<and>
                         set deps' = set (List.insert d deps) \<union> readsOf (resolved st1) (k v)
          | Throws e \<Rightarrow> evalOf (resolved st1) (k v) = None \<or>
                         (\<exists>s. evalOf (resolved st1) (k v) = Some (EndsThrow s) \<and> e = Thrown s)
          | Suspends p \<Rightarrow> evalOf (resolved st1) (k v) = None \<and>
                         (\<exists>x. valueMap st1 x = Some (Pending p)))"
      by simp_all
    from res1 Value have "resolved s1 d = Some v" by simp
    from rsteps_resolved_keeps[OF steps2 this] have d1: "resolved st1 d = Some v" .
    from steps1 steps2 have "(rstep cfg cs)\<^sup>*\<^sup>* st st1" by (rule rtranclp_trans)
    with rest d1 show ?thesis by (cases out) auto
  next
    case (PendingMarker p)
    with Get.prems g have "out = Suspends p" "st1 = s1" by simp_all
    with steps1 res1 pend1 PendingMarker show ?thesis by simp
  next
    case (Failed e)
    with Get.prems g have "out = Throws e" "st1 = s1" by simp_all
    with steps1 res1 Failed show ?thesis by simp
  qed
next
  case (Return v)
  then show ?case by fastforce
next
  case ReturnPromise
  then show ?case by fastforce
next
  case (Throw e)
  then show ?case by fastforce
qed


lemma getAtom_readerOk:
  assumes "\<And>st a res st'. valueMap st a = None \<Longrightarrow> compute st a = (res, st') \<Longrightarrow>
             (rstep cfg cs)\<^sup>*\<^sup>* st st' \<and>
             resolved st' a = (case res of Value v \<Rightarrow> Some v | _ \<Rightarrow> None) \<and>
             (\<forall>p. res = PendingMarker p \<longrightarrow> (\<exists>x. valueMap st' x = Some (Pending p)))"
  shows "readerOk cfg cs (getAtom compute)"
  unfolding readerOk_def
proof (intro allI impI)
  fix st d res st'
  assume g: "getAtom compute st d = (res, st')"
  show "(rstep cfg cs)\<^sup>*\<^sup>* st st' \<and>
        resolved st' d = (case res of Value v \<Rightarrow> Some v | _ \<Rightarrow> None) \<and>
        (\<forall>p. res = PendingMarker p \<longrightarrow> (\<exists>x. valueMap st' x = Some (Pending p)))"
  proof (cases "valueMap st d")
    case None
    with g have "compute st d = (res, st')" by (simp add: getAtom_def)
    from assms[OF None this] show ?thesis .
  next
    case (Some vs)
    show ?thesis
    proof (cases vs)
      case (Resolved v)
      with Some g have "res = Value v" "st' = st" by (simp_all add: getAtom_def)
      with Some Resolved show ?thesis by (simp add: resolved_def)
    next
      case (Pending p)
      with Some g have "res = PendingMarker p" "st' = st" by (simp_all add: getAtom_def)
      with Some Pending show ?thesis by (auto simp: resolved_def)
    qed
  qed
qed

lemma finishRead_after_commit:
  assumes step: "rstep cfg cs st1 st2" and unset: "valueMap st1 a = None"
    and fin: "finishRead cfg n st1 a res0 st2 = (res, st')"
    and r0: "resolved st2 a = (case res0 of Value v \<Rightarrow> Some v | _ \<Rightarrow> None)"
    and p0: "\<forall>p. res0 = PendingMarker p \<longrightarrow> (\<exists>x. valueMap st2 x = Some (Pending p))"
    and f0: "\<forall>e. res0 \<noteq> Failed e"
  shows "(rstep cfg cs)\<^sup>*\<^sup>* st1 st' \<and>
         resolved st' a = (case res of Value v \<Rightarrow> Some v | _ \<Rightarrow> None) \<and>
         (\<forall>p. res = PendingMarker p \<longrightarrow> (\<exists>x. valueMap st' x = Some (Pending p))) \<and>
         (\<forall>e. res = Failed e \<longrightarrow> valueMap st' a = None)"
proof -
  from finishRead_cases[OF fin, of cs]
  consider (gaveUp) "res = Failed RecursionLimit" "st' = st1"
    | (kept) "res = res0" "(rstep cfg cs)\<^sup>*\<^sup>* st2 st'" "valueMap st' = valueMap st2"
    by blast
  then show ?thesis
  proof cases
    case gaveUp
    with unset show ?thesis by (simp add: resolved_unset)
  next
    case kept
    from kept(3) have "resolved st' = resolved st2" by (rule_tac ext) (simp add: resolved_def)
    moreover from step kept(2) have "(rstep cfg cs)\<^sup>*\<^sup>* st1 st'"
      by (rule converse_rtranclp_into_rtranclp)
    ultimately show ?thesis using r0 p0 f0 kept(1,3) by simp
  qed
qed

lemma readAtomState_steps:
  "valueMap st a = None \<Longrightarrow> readAtomState cfg n cs st a = (res, st') \<Longrightarrow>
   (rstep cfg cs)\<^sup>*\<^sup>* st st' \<and>
   resolved st' a = (case res of Value v \<Rightarrow> Some v | _ \<Rightarrow> None) \<and>
   (\<forall>p. res = PendingMarker p \<longrightarrow> (\<exists>x. valueMap st' x = Some (Pending p))) \<and>
   (\<forall>e. res = Failed e \<longrightarrow> valueMap st' a = None)"
proof (induction n arbitrary: cs st a res st')
  case 0
  then show ?case by (auto simp: resolved_unset)
next
  case (Suc n)
  note unset = Suc.prems(1)
  show ?case
  proof (cases "a \<in> cs")
    case True
    with Suc.prems show ?thesis by (auto simp: resolved_unset)
  next
    case False
    show ?thesis
    proof (cases "read (cfg a)")
      case (Constant v)
      with False Suc.prems(2)
      have fin: "finishRead cfg n st a (Value v) (commitValue st a v []) = (res, st')"
        by simp
      have step: "rstep cfg cs st (commitValue st a v [])"
        using False unset Constant
        by (intro rstep.commit) (simp_all add: outcomeOf_def dependenciesOf_def)
      show ?thesis
        by (rule finishRead_after_commit[OF step unset fin]) (simp_all add: resolved_commitValue)
    next
      case (Compute r)
      let ?get = "getAtom (readAtomState cfg n (insert a cs))"
      have ok: "readerOk cfg (insert a cs) ?get"
        by (rule getAtom_readerOk) (use Suc.IH in blast)
      obtain out st1 deps where run: "runRead ?get r st [] = (out, st1, deps)"
        by (cases "runRead ?get r st []")
      note rr = runRead_steps[OF ok run]
      from rr have steps_in: "(rstep cfg (insert a cs))\<^sup>*\<^sup>* st st1" by simp
      then have steps: "(rstep cfg cs)\<^sup>*\<^sup>* st st1"
        by (rule rsteps_computing_mono) auto
      from rsteps_computing_unchanged[OF steps_in, of a] unset
      have unset1: "valueMap st1 a = None" by simp
      show ?thesis
      proof (cases out)
        case (Returns v)
        with rr have ev: "evalOf (resolved st1) r = Some (Ends v)"
          and ds: "set deps = readsOf (resolved st1) r" by simp_all
        from Returns run False Compute Suc.prems(2)
        have fin: "finishRead cfg n st1 a (Value v) (commitValue st1 a v deps) = (res, st')"
          by simp
        have step: "rstep cfg cs st1 (commitValue st1 a v deps)"
          using False unset1 Compute ev ds
          by (intro rstep.commit) (simp_all add: outcomeOf_def dependenciesOf_def)
        have "(rstep cfg cs)\<^sup>*\<^sup>* st1 st' \<and>
              resolved st' a = (case res of Value v \<Rightarrow> Some v | _ \<Rightarrow> None) \<and>
              (\<forall>p. res = PendingMarker p \<longrightarrow> (\<exists>x. valueMap st' x = Some (Pending p))) \<and>
              (\<forall>e. res = Failed e \<longrightarrow> valueMap st' a = None)"
          by (rule finishRead_after_commit[OF step unset1 fin]) (simp_all add: resolved_commitValue)
        with steps show ?thesis by (meson rtranclp_trans)
      next
        case ReturnsPromise
        with rr have ev: "evalOf (resolved st1) r = Some EndsPromise"
          and ds: "set deps = readsOf (resolved st1) r" by simp_all
        from ReturnsPromise run False Compute Suc.prems(2)
        have fin: "finishRead cfg n st1 a (PendingMarker (nextPromise st1)) (issuePromise st1 a deps)
                     = (res, st')"
          by simp
        have step: "rstep cfg cs st1 (issuePromise st1 a deps)"
          using False unset1 Compute ev ds
          by (intro rstep.issue) (simp_all add: outcomeOf_def dependenciesOf_def)
        have "(rstep cfg cs)\<^sup>*\<^sup>* st1 st' \<and>
              resolved st' a = (case res of Value v \<Rightarrow> Some v | _ \<Rightarrow> None) \<and>
              (\<forall>p. res = PendingMarker p \<longrightarrow> (\<exists>x. valueMap st' x = Some (Pending p))) \<and>
              (\<forall>e. res = Failed e \<longrightarrow> valueMap st' a = None)"
          by (rule finishRead_after_commit[OF step unset1 fin])
             (auto simp: resolved_issuePromise)
        with steps show ?thesis by (meson rtranclp_trans)
      next
        case (Throws e)
        with run False Compute Suc.prems(2) have "res = Failed e" "st' = st1" by simp_all
        with steps unset1 show ?thesis by (simp add: resolved_unset)
      next
        case (Suspends p)
        with run False Compute Suc.prems(2) have "res = PendingMarker p" "st' = st1" by simp_all
        moreover from rr Suspends have "\<exists>x. valueMap st1 x = Some (Pending p)" by simp
        ultimately show ?thesis using steps unset1 by (simp add: resolved_unset)
      qed
    qed
  qed
qed

lemma setDependencies_dependentMap:
  "a' \<in> set (dependentMap (setDependencies st a deps) d) \<longleftrightarrow>
     (if a' = a then d \<in> set deps \<or> (d \<notin> set (dependencyMap st a) \<and> a \<in> set (dependentMap st d))
      else a' \<in> set (dependentMap st d))"
  by (auto simp: setDependencies_def)

lemma transposed_setDependencies:
  assumes "transposed st"
  shows "transposed (setDependencies st a deps)"
  unfolding transposed_def
proof (intro allI)
  fix a' d
  show "a' \<in> set (dependentMap (setDependencies st a deps) d) \<longleftrightarrow>
        d \<in> set (dependencyMap (setDependencies st a deps) a')"
    using assms by (auto simp: setDependencies_dependentMap transposed_def)
qed

lemma transposed_cong:
  "dependentMap s' = dependentMap s \<Longrightarrow> dependencyMap s' = dependencyMap s \<Longrightarrow>
   transposed s' = transposed s"
  by (simp add: transposed_def)

lemma rstep_transposed: "rstep cfg cs s s' \<Longrightarrow> transposed s \<Longrightarrow> transposed s'"
proof (induction rule: rstep.induct)
  case (commit a st v deps)
  have "transposed (commitValue st a v deps) = transposed (setDependencies st a deps)"
    by (rule transposed_cong) (simp_all add: commitValue_def)
  with commit.prems show ?case by (simp add: transposed_setDependencies)
next
  case (issue a st deps)
  have "transposed (issuePromise st a deps) = transposed (setDependencies st a deps)"
    by (rule transposed_cong) (simp_all add: issuePromise_def)
  with issue.prems show ?case by (simp add: transposed_setDependencies)
next
  case (mount st x)
  have "transposed (mountOne cfg x st) = transposed st" by (rule transposed_cong) simp_all
  with mount show ?case by simp
next
  case (unmount st x)
  have "transposed (unmountOne x st) = transposed st" by (rule transposed_cong) simp_all
  with unmount show ?case by simp
qed

lemma rsteps_transposed: "(rstep cfg cs)\<^sup>*\<^sup>* s s' \<Longrightarrow> transposed s \<Longrightarrow> transposed s'"
  by (induction rule: rtranclp_induct) (auto dest: rstep_transposed)

lemma getValue_steps:
  assumes "getValue cfg n st a = (res, st')"
  shows "(rstep cfg {})\<^sup>*\<^sup>* st st' \<and>
         resolved st' a = (case res of Value v \<Rightarrow> Some v | _ \<Rightarrow> None) \<and>
         (\<forall>p. res = PendingMarker p \<longrightarrow> (\<exists>x. valueMap st' x = Some (Pending p)))"
proof -
  have "readerOk cfg {} (getAtom (readAtomState cfg n {}))"
    by (rule getAtom_readerOk) (use readAtomState_steps in blast)
  with assms show ?thesis unfolding readerOk_def getValue_def by blast
qed

lemma fresh_unset: "valueMap st a = None \<Longrightarrow> fresh cfg st a"
  by (simp add: fresh_def)

lemma fresh_dependencies:
  assumes "fresh cfg st a" and "valueMap st a \<noteq> None"
  shows "set (dependencyMap st a) = dependenciesOf (resolved st) (cfg a)"
  using assms by (auto simp: fresh_def split: option.splits valueState.splits)


lemma rsteps_unset_before:
  "(rstep cfg cs)\<^sup>*\<^sup>* s s' \<Longrightarrow> valueMap s' a = None \<Longrightarrow>
   valueMap s a = None \<and> dependencyMap s' a = dependencyMap s a"
proof (induction rule: rtranclp_induct)
  case base
  then show ?case by simp
next
  case (step y z)
  from step.hyps(2) step.prems have "valueMap y a = None \<and> dependencyMap z a = dependencyMap y a"
    by (induction rule: rstep.induct) (auto split: if_splits)
  with step.IH show ?case by simp
qed

lemma readAtomState_throws:
  assumes unset: "valueMap st a = None" and notin: "a \<notin> cs" and rd: "read (cfg a) = Compute r"
    and run: "readAtomState cfg (Suc n) cs st a = (res, st')"
    and thr: "evalOf (resolved st') r = Some (EndsThrow e)"
  shows "res = Failed (Thrown e)"
proof -
  let ?get = "getAtom (readAtomState cfg n (insert a cs))"
  have ok: "readerOk cfg (insert a cs) ?get"
    by (rule getAtom_readerOk) (use readAtomState_steps in blast)
  obtain out st1 deps where rr: "runRead ?get r st [] = (out, st1, deps)"
    by (cases "runRead ?get r st []")
  note facts = runRead_steps[OF ok rr]
  from facts have steps_in: "(rstep cfg (insert a cs))\<^sup>*\<^sup>* st st1" by simp
  from rsteps_computing_unchanged[OF steps_in, of a] unset
  have unset1: "valueMap st1 a = None" by simp
  have ext: "resolved st1 \<subseteq>\<^sub>m resolved st2" if "valueMap st2 = (valueMap st1)(a \<mapsto> vs)" for st2 vs
    using that unset1 by (auto simp: map_le_def resolved_def domIff split: option.splits valueState.splits)
  have keep: "evalOf (resolved st') r = Some en"
    if fin: "finishRead cfg n st1 a res0 st2 = (res, st')"
      and vm: "valueMap st2 = (valueMap st1)(a \<mapsto> vs)"
      and ev: "evalOf (resolved st1) r = Some en" for res0 st2 vs en
  proof -
    from finishRead_cases[OF fin, of cs]
    have "st' = st1 \<or> valueMap st' = valueMap st2" by blast
    then show ?thesis
    proof
      assume "st' = st1" with ev show ?thesis by simp
    next
      assume "valueMap st' = valueMap st2"
      with vm have "valueMap st' = (valueMap st1)(a \<mapsto> vs)" by simp
      from evalOf_mono[OF ext[OF this] ev] show ?thesis by simp
    qed
  qed
  show ?thesis
  proof (cases out)
    case (Returns v)
    with facts have ev: "evalOf (resolved st1) r = Some (Ends v)" by simp
    from Returns rr notin rd run
    have fin: "finishRead cfg n st1 a (Value v) (commitValue st1 a v deps) = (res, st')" by simp
    have "valueMap (commitValue st1 a v deps) = (valueMap st1)(a \<mapsto> Resolved v)" by simp
    from keep[OF fin this ev] thr show ?thesis by simp
  next
    case ReturnsPromise
    with facts have ev: "evalOf (resolved st1) r = Some EndsPromise" by simp
    from ReturnsPromise rr notin rd run
    have fin: "finishRead cfg n st1 a (PendingMarker (nextPromise st1)) (issuePromise st1 a deps)
                 = (res, st')" by simp
    have "valueMap (issuePromise st1 a deps) = (valueMap st1)(a \<mapsto> Pending (nextPromise st1))"
      by simp
    from keep[OF fin this ev] thr show ?thesis by simp
  next
    case (Throws e')
    with rr notin rd run have "res = Failed e'" "st' = st1" by simp_all
    with facts Throws thr show ?thesis by auto
  next
    case (Suspends p)
    with rr notin rd run have "st' = st1" by simp
    with facts Suspends thr show ?thesis by simp
  qed
qed

lemma getValue_unset: "valueMap st a = None \<Longrightarrow> getValue cfg n st a = readAtomState cfg n {} st a"
  by (simp add: getValue_def getAtom_def)

lemma getValue_cached:
  "valueMap st a = Some (Resolved v) \<Longrightarrow> getValue cfg n st a = (Value v, st)"
  by (simp add: getValue_def getAtom_def)

lemma runWrite_throwsBeforeSet:
  "throwsBeforeSet cfg n st w e st' \<Longrightarrow>
   runWrite (getValue cfg n) set' w st = (Some (Thrown e), st') \<and> (rstep cfg {})\<^sup>*\<^sup>* st st'"
proof (induction rule: throwsBeforeSet.induct)
  case (atThrow st e)
  show ?case by simp
next
  case (afterGet st d v st1 k e st2)
  from getValue_steps[OF afterGet.hyps(1)] have "(rstep cfg {})\<^sup>*\<^sup>* st st1" by simp
  with afterGet.IH afterGet.hyps(1) show ?case by (auto intro: rtranclp_trans)
qed

lemma read_error_leaves_cache:
  assumes "read (cfg a) = Compute r" and "valueMap st a = None" and "0 < n"
    and "getValue cfg n st a = (res, st')"
  shows "(\<forall>e. evalOf (resolved st') r = Some (EndsThrow e) \<longrightarrow> res = Failed (Thrown e)) \<and>
         (\<forall>err. res = Failed err \<longrightarrow>
            valueMap st' a = None \<and> dependencyMap st' a = dependencyMap st a \<and>
            getValue cfg n st' a = readAtomState cfg n {} st' a)"
proof -
  from assms(3) obtain m where n: "n = Suc m" by (cases n) auto
  from assms(2,4) have run: "readAtomState cfg (Suc m) {} st a = (res, st')"
    by (simp add: getValue_unset n)
  have 1: "\<forall>e. evalOf (resolved st') r = Some (EndsThrow e) \<longrightarrow> res = Failed (Thrown e)"
    using readAtomState_throws[OF assms(2) _ assms(1) run] by simp
  from readAtomState_steps[OF assms(2) run]
  have steps: "(rstep cfg {})\<^sup>*\<^sup>* st st'"
    and fail: "\<forall>err. res = Failed err \<longrightarrow> valueMap st' a = None" by simp_all
  have 2: "valueMap st' a = None \<and> dependencyMap st' a = dependencyMap st a \<and>
           getValue cfg n st' a = readAtomState cfg n {} st' a" if "res = Failed err" for err
  proof -
    from fail that have u: "valueMap st' a = None" by simp
    from rsteps_unset_before[OF steps u] u show ?thesis by (simp add: getValue_unset)
  qed
  from 1 2 show ?thesis by blast
qed

lemma those_map_Some:
  "those (map f xs) = Some ls \<Longrightarrow> x \<in> set xs \<Longrightarrow> \<exists>l. f x = Some l \<and> l \<in> set ls"
proof (induction xs arbitrary: ls)
  case Nil
  then show ?case by simp
next
  case (Cons y ys)
  from Cons.prems(1) obtain l0 ls0 where fy: "f y = Some l0"
    and rest: "those (map f ys) = Some ls0" and ls: "ls = l0 # ls0"
    by (auto split: option.splits)
  show ?case
  proof (cases "x = y")
    case True
    with fy ls show ?thesis by simp
  next
    case False
    with Cons.prems(2) have "x \<in> set ys" by simp
    from Cons.IH[OF rest this] ls show ?thesis by auto
  qed
qed

lemma reachable_direct:
  assumes "reachable n g a = Some ds" and "b \<in> set (g a)"
  shows "b \<in> set ds \<and> (\<exists>m l. n = Suc m \<and> reachable m g b = Some l \<and> set l \<subseteq> set ds)"
proof (cases n)
  case 0
  with assms show ?thesis by (auto split: if_splits)
next
  case (Suc m)
  with assms(1) obtain ls where th: "those (map (reachable m g) (g a)) = Some ls"
    and ds: "ds = g a @ concat ls"
    by auto
  from those_map_Some[OF th assms(2)] obtain l where "reachable m g b = Some l" "l \<in> set ls"
    by blast
  with ds assms(2) Suc show ?thesis by auto
qed

lemma reachable_chain:
  assumes "reachable n g a = Some ds" and "b \<in> set (g a)" and "c \<in> set (g b)"
  shows "b \<in> set ds \<and> c \<in> set ds"
proof -
  from reachable_direct[OF assms(1,2)] obtain m l where b: "b \<in> set ds"
    and l: "reachable m g b = Some l" "set l \<subseteq> set ds" by blast
  from reachable_direct[OF l(1) assms(3)] have "c \<in> set l" by simp
  with b l(2) show ?thesis by auto
qed

lemma recompute_steps:
  assumes ok: "readerOk cfg cs get"
  shows "recompute get s xs = (r, s') \<Longrightarrow>
         (rstep cfg cs)\<^sup>*\<^sup>* s s' \<and>
         (r = None \<longrightarrow> (\<forall>x \<in> set xs. resolved s' x \<noteq> None \<or> (\<exists>y p. valueMap s' y = Some (Pending p))))"
proof (induction xs arbitrary: s)
  case Nil
  then show ?case by simp
next
  case (Cons x xs)
  obtain res s1 where g: "get s x = (res, s1)" by (cases "get s x")
  from ok g have steps1: "(rstep cfg cs)\<^sup>*\<^sup>* s s1"
    and res1: "resolved s1 x = (case res of Value v \<Rightarrow> Some v | _ \<Rightarrow> None)"
    and pend1: "\<And>p. res = PendingMarker p \<Longrightarrow> \<exists>y. valueMap s1 y = Some (Pending p)"
    unfolding readerOk_def by blast+
  show ?case
  proof (cases res)
    case (Failed e)
    with Cons.prems g have "r = Some e" "s' = s1" by simp_all
    with steps1 show ?thesis by simp
  next
    case (Value v)
    with Cons.prems g have rec: "recompute get s1 xs = (r, s')" by simp
    from Cons.IH[OF rec] have steps2: "(rstep cfg cs)\<^sup>*\<^sup>* s1 s'"
      and rest: "r = None \<longrightarrow> (\<forall>x \<in> set xs. resolved s' x \<noteq> None \<or> (\<exists>y p. valueMap s' y = Some (Pending p)))"
      by simp_all
    from res1 Value have "resolved s1 x = Some v" by simp
    from rsteps_resolved_keeps[OF steps2 this] have "resolved s' x \<noteq> None" by simp
    moreover from steps1 steps2 have "(rstep cfg cs)\<^sup>*\<^sup>* s s'" by (rule rtranclp_trans)
    ultimately show ?thesis using rest by simp
  next
    case (PendingMarker p)
    with Cons.prems g have rec: "recompute get s1 xs = (r, s')" by simp
    from Cons.IH[OF rec] have steps2: "(rstep cfg cs)\<^sup>*\<^sup>* s1 s'"
      and rest: "r = None \<longrightarrow> (\<forall>x \<in> set xs. resolved s' x \<noteq> None \<or> (\<exists>y p. valueMap s' y = Some (Pending p)))"
      by simp_all
    from pend1[OF PendingMarker] obtain y where "valueMap s1 y = Some (Pending p)" ..
    from rsteps_valueMap_keeps[OF steps2 this] have "\<exists>y p. valueMap s' y = Some (Pending p)"
      by blast
    moreover from steps1 steps2 have "(rstep cfg cs)\<^sup>*\<^sup>* s s'" by (rule rtranclp_trans)
    ultimately show ?thesis using rest by simp
  qed
qed

lemma getValue_readerOk: "readerOk cfg {} (getAtom (readAtomState cfg n {}))"
  by (rule getAtom_readerOk) (use readAtomState_steps in blast)

text \<open>The store in which propagation starts: dependents unset, the written value committed.\<close>

lemma commitAndPropagate_unfold:
  assumes "reachable n (dependentMap st) a = Some ds"
  shows "commitAndPropagate cfg n st a v =
         recompute (getAtom (readAtomState cfg n {}))
           ((invalidate st ds)\<lparr>valueMap := (valueMap (invalidate st ds))(a \<mapsto> Resolved v)\<rparr>)
           (filter (\<lambda>d. d \<in> mountedSet st) ds)"
  using assms by (simp add: commitAndPropagate_def)

lemma fresh_value:
  assumes "fresh cfg st a" and "valueMap st a = Some (Resolved v)"
  shows "outcomeOf (resolved st) (cfg a) = Some (Ends v)"
  using assms by (simp add: fresh_def)

lemma propagate_result:
  assumes r: "reachable n (dependentMap st) a = Some ds"
    and c: "commitAndPropagate cfg n st a v = (err, st')"
  shows "valueMap st' a = Some (Resolved v) \<and>
         (\<forall>d \<in> set ds. d \<noteq> a \<longrightarrow> fresh cfg st' d) \<and>
         (err = None \<longrightarrow> (\<forall>d \<in> set ds. d \<in> mountedSet st \<longrightarrow>
              resolved st' d \<noteq> None \<or> (\<exists>y p. valueMap st' y = Some (Pending p))))"
proof -
  let ?s0 = "(invalidate st ds)\<lparr>valueMap := (valueMap (invalidate st ds))(a \<mapsto> Resolved v)\<rparr>"
  from c have rc: "recompute (getAtom (readAtomState cfg n {})) ?s0
                     (filter (\<lambda>d. d \<in> mountedSet st) ds) = (err, st')"
    by (simp add: commitAndPropagate_unfold[OF r])
  note rs = recompute_steps[OF getValue_readerOk rc]
  from rs have steps: "(rstep cfg {})\<^sup>*\<^sup>* ?s0 st'" by simp
  have "valueMap ?s0 a = Some (Resolved v)" by simp
  from rsteps_valueMap_keeps[OF steps this] have 1: "valueMap st' a = Some (Resolved v)" .
  have 2: "fresh cfg st' d" if "d \<in> set ds" "d \<noteq> a" for d
  proof -
    from that have "valueMap ?s0 d = None" by (simp add: invalidate_def)
    then have "fresh cfg ?s0 d" by (rule fresh_unset)
    with steps show ?thesis by (rule rsteps_fresh)
  qed
  from rs have 3: "err = None \<longrightarrow> (\<forall>d \<in> set ds. d \<in> mountedSet st \<longrightarrow>
              resolved st' d \<noteq> None \<or> (\<exists>y p. valueMap st' y = Some (Pending p)))"
    by auto
  from 1 2 3 show ?thesis by blast
qed


lemma noPending_createStore: "noPending (createStore initialValues)"
  by (auto simp: noPending_def createStore_def dest!: map_of_SomeD)

lemma transposed_createStore: "transposed (createStore initialValues)"
  by (simp add: transposed_def createStore_def)

lemma rstep_noPending:
  "rstep cfg cs s s' \<Longrightarrow> nextPromise s' = nextPromise s \<Longrightarrow> noPending s \<Longrightarrow> noPending s'"
  by (induction rule: rstep.induct) (auto simp: noPending_def)

lemma rsteps_noPending:
  "(rstep cfg cs)\<^sup>*\<^sup>* s s' \<Longrightarrow> nextPromise s' = nextPromise s \<Longrightarrow> noPending s \<Longrightarrow> noPending s'"
proof (induction rule: rtranclp_induct)
  case base
  then show ?case by simp
next
  case (step y z)
  from rsteps_nextPromise[OF step.hyps(1)] rstep_nextPromise[OF step.hyps(2)] step.prems(1)
  have "nextPromise y = nextPromise s" "nextPromise z = nextPromise y" by simp_all
  with step show ?case by (auto dest: rstep_noPending)
qed

lemma getValue_noPending:
  assumes "getValue cfg n st a = (res, st')" and "nextPromise st' = nextPromise st" and "noPending st"
  shows "noPending st'"
  using getValue_steps[OF assms(1)] assms(2,3) by (auto dest: rsteps_noPending)

lemma getValue_transposed:
  assumes "getValue cfg n st a = (res, st')" and "transposed st"
  shows "transposed st'"
  using getValue_steps[OF assms(1)] assms(2) by (auto dest: rsteps_transposed)

lemma subscribe_maps:
  assumes "subscribe cfg n st a = (err, st')"
  shows "valueMap st' = valueMap st \<and> dependencyMap st' = dependencyMap st \<and>
         dependentMap st' = dependentMap st \<and> nextPromise st' = nextPromise st"
  using assms by (auto simp: subscribe_def split: option.splits)

lemma commitAndPropagate_steps:
  assumes "commitAndPropagate cfg n st a v = (err, st')"
  shows "st' = st \<or>
         (\<exists>ds. (rstep cfg {})\<^sup>*\<^sup>*
                 ((invalidate st ds)\<lparr>valueMap := (valueMap (invalidate st ds))(a \<mapsto> Resolved v)\<rparr>) st')"
proof (cases "reachable n (dependentMap st) a")
  case None
  with assms show ?thesis by (simp add: commitAndPropagate_def)
next
  case (Some ds)
  from assms have "recompute (getAtom (readAtomState cfg n {}))
                     ((invalidate st ds)\<lparr>valueMap := (valueMap (invalidate st ds))(a \<mapsto> Resolved v)\<rparr>)
                     (filter (\<lambda>d. d \<in> mountedSet st) ds) = (err, st')"
    by (simp add: commitAndPropagate_unfold[OF Some])
  from recompute_steps[OF getValue_readerOk this] show ?thesis by blast
qed

lemma invalidate_fields [simp]:
  "dependencyMap (invalidate st ds) = dependencyMap st"
  "dependentMap (invalidate st ds) = dependentMap st"
  "mountedSet (invalidate st ds) = mountedSet st"
  "pendingPromiseMap (invalidate st ds) = pendingPromiseMap st"
  "nextPromise (invalidate st ds) = nextPromise st"
  "subscribers (invalidate st ds) = subscribers st"
  "unmountCallbacks (invalidate st ds) = unmountCallbacks st"
  "callbackLog (invalidate st ds) = callbackLog st"
  by (simp_all add: invalidate_def)

lemma commitAndPropagate_noPending:
  assumes c: "commitAndPropagate cfg n st a v = (err, st')"
    and np: "nextPromise st' = nextPromise st" and no: "noPending st"
  shows "noPending st'"
proof -
  from commitAndPropagate_steps[OF c] show ?thesis
  proof
    assume "st' = st" with no show ?thesis by simp
  next
    assume "\<exists>ds. (rstep cfg {})\<^sup>*\<^sup>*
                 ((invalidate st ds)\<lparr>valueMap := (valueMap (invalidate st ds))(a \<mapsto> Resolved v)\<rparr>) st'"
    then obtain ds where steps: "(rstep cfg {})\<^sup>*\<^sup>*
                 ((invalidate st ds)\<lparr>valueMap := (valueMap (invalidate st ds))(a \<mapsto> Resolved v)\<rparr>) st'" ..
    have "noPending ((invalidate st ds)\<lparr>valueMap := (valueMap (invalidate st ds))(a \<mapsto> Resolved v)\<rparr>)"
      using no by (auto simp: noPending_def invalidate_def)
    with rsteps_noPending[OF steps] np show ?thesis by simp
  qed
qed

lemma commitAndPropagate_transposed:
  assumes c: "commitAndPropagate cfg n st a v = (err, st')" and t: "transposed st"
  shows "transposed st'"
proof -
  from commitAndPropagate_steps[OF c] show ?thesis
  proof
    assume "st' = st" with t show ?thesis by simp
  next
    assume "\<exists>ds. (rstep cfg {})\<^sup>*\<^sup>*
                 ((invalidate st ds)\<lparr>valueMap := (valueMap (invalidate st ds))(a \<mapsto> Resolved v)\<rparr>) st'"
    then obtain ds where steps: "(rstep cfg {})\<^sup>*\<^sup>*
                 ((invalidate st ds)\<lparr>valueMap := (valueMap (invalidate st ds))(a \<mapsto> Resolved v)\<rparr>) st'" ..
    have "transposed ((invalidate st ds)\<lparr>valueMap := (valueMap (invalidate st ds))(a \<mapsto> Resolved v)\<rparr>)
            = transposed st"
      by (rule transposed_cong) simp_all
    with rsteps_transposed[OF steps] t show ?thesis by simp
  qed
qed

lemma setValue_primitive:
  "read (cfg a) = Constant c \<Longrightarrow> write' (cfg a) = None \<Longrightarrow>
   setValue cfg n st a v = commitAndPropagate cfg n st a v"
  by (simp add: setValue_def)






section \<open>Lifecycle callbacks and promises\<close>

lemma passOk_refl: "passOk cfg s s"
  by (simp add: passOk_def)

lemma passOk_trans:
  assumes "passOk cfg s s'" and "passOk cfg s' s''"
  shows "passOk cfg s s''"
proof -
  from assms(1) obtain new1 where 1: "subscribers s' = subscribers s"
    "pairedOk cfg s \<longrightarrow> pairedOk cfg s'"
    "\<forall>x. x \<in> mountedSet s \<and> 0 < subscribers s x \<longrightarrow> x \<in> mountedSet s'"
    "callbackLog s' = callbackLog s @ new1"
    "\<forall>x. UnmountCalled x \<in> set new1 \<longrightarrow> subscribers s x = 0"
    "\<forall>x. x \<in> mountedSet s \<and> 0 < subscribers s x \<longrightarrow>
         MountCalled x \<notin> set new1 \<and> UnmountCalled x \<notin> set new1"
    unfolding passOk_def by blast
  from assms(2) obtain new2 where 2: "subscribers s'' = subscribers s'"
    "pairedOk cfg s' \<longrightarrow> pairedOk cfg s''"
    "\<forall>x. x \<in> mountedSet s' \<and> 0 < subscribers s' x \<longrightarrow> x \<in> mountedSet s''"
    "callbackLog s'' = callbackLog s' @ new2"
    "\<forall>x. UnmountCalled x \<in> set new2 \<longrightarrow> subscribers s' x = 0"
    "\<forall>x. x \<in> mountedSet s' \<and> 0 < subscribers s' x \<longrightarrow>
         MountCalled x \<notin> set new2 \<and> UnmountCalled x \<notin> set new2"
    unfolding passOk_def by blast
  have log: "callbackLog s'' = callbackLog s @ (new1 @ new2)" using 1(4) 2(4) by simp
  have sub: "subscribers s'' = subscribers s" using 1(1) 2(1) by simp
  have pd: "pairedOk cfg s \<longrightarrow> pairedOk cfg s''" using 1(2) 2(2) by blast
  have a: "subscribers s x = 0" if "UnmountCalled x \<in> set (new1 @ new2)" for x
  proof -
    from that have "UnmountCalled x \<in> set new1 \<or> UnmountCalled x \<in> set new2" by simp
    then show ?thesis
    proof
      assume "UnmountCalled x \<in> set new1" with 1(5) show ?thesis by blast
    next
      assume "UnmountCalled x \<in> set new2" with 2(5) have "subscribers s' x = 0" by blast
      with 1(1) show ?thesis by simp
    qed
  qed
  have keep: "x \<in> mountedSet s' \<and> 0 < subscribers s' x" if "x \<in> mountedSet s" "0 < subscribers s x" for x
    using that 1(1,3) by simp
  have b: "MountCalled x \<notin> set (new1 @ new2) \<and> UnmountCalled x \<notin> set (new1 @ new2)"
    if "x \<in> mountedSet s" "0 < subscribers s x" for x
  proof -
    from that 1(6) have "MountCalled x \<notin> set new1 \<and> UnmountCalled x \<notin> set new1" by blast
    moreover from keep[OF that] 2(6) have "MountCalled x \<notin> set new2 \<and> UnmountCalled x \<notin> set new2"
      by blast
    ultimately show ?thesis by simp
  qed
  have c: "x \<in> mountedSet s''" if "x \<in> mountedSet s" "0 < subscribers s x" for x
    using keep[OF that] 2(3) by blast
  have "\<exists>new. callbackLog s'' = callbackLog s @ new \<and>
        (\<forall>x. UnmountCalled x \<in> set new \<longrightarrow> subscribers s x = 0) \<and>
        (\<forall>x. x \<in> mountedSet s \<and> 0 < subscribers s x \<longrightarrow>
             MountCalled x \<notin> set new \<and> UnmountCalled x \<notin> set new)"
    using log a b by blast
  with sub pd c show ?thesis unfolding passOk_def by blast
qed

lemma pairedOk_cong:
  "mountedSet s' = mountedSet s \<Longrightarrow> unmountCallbacks s' = unmountCallbacks s \<Longrightarrow>
   callbackLog s' = callbackLog s \<Longrightarrow> pairedOk cfg s' = pairedOk cfg s"
  by (simp add: pairedOk_def)

lemma passOk_same:
  assumes "mountedSet s' = mountedSet s" and "unmountCallbacks s' = unmountCallbacks s"
    and "callbackLog s' = callbackLog s" and "subscribers s' = subscribers s"
  shows "passOk cfg s s'"
  unfolding passOk_def using assms pairedOk_cong[OF assms(1,2,3)] by simp

lemma passOkI:
  assumes "subscribers s' = subscribers s" and "pairedOk cfg s \<Longrightarrow> pairedOk cfg s'"
    and "\<And>x. x \<in> mountedSet s \<Longrightarrow> 0 < subscribers s x \<Longrightarrow> x \<in> mountedSet s'"
    and "callbackLog s' = callbackLog s @ new"
    and "\<And>x. UnmountCalled x \<in> set new \<Longrightarrow> subscribers s x = 0"
    and "\<And>x. x \<in> mountedSet s \<Longrightarrow> 0 < subscribers s x \<Longrightarrow>
           MountCalled x \<notin> set new \<and> UnmountCalled x \<notin> set new"
  shows "passOk cfg s s'"
proof -
  have "\<exists>new. callbackLog s' = callbackLog s @ new \<and>
        (\<forall>x. UnmountCalled x \<in> set new \<longrightarrow> subscribers s x = 0) \<and>
        (\<forall>x. x \<in> mountedSet s \<and> 0 < subscribers s x \<longrightarrow>
             MountCalled x \<notin> set new \<and> UnmountCalled x \<notin> set new)"
    using assms(4,5,6) by blast
  with assms(1,2,3) show ?thesis unfolding passOk_def by blast
qed

lemma passOk_mountOne: "passOk cfg s (mountOne cfg x s)"
proof (cases "x \<in> mountedSet s")
  case True
  then show ?thesis by (simp add: mountOne_def passOk_refl)
next
  case False
  let ?new = "if onMount (cfg x) = None then [] else [MountCalled x]"
  show ?thesis
  proof (rule passOkI[where new = ?new])
    show "subscribers (mountOne cfg x s) = subscribers s" by simp
    show "pairedOk cfg (mountOne cfg x s)" if "pairedOk cfg s"
      using that False unfolding pairedOk_def mountOne_def by auto
    show "y \<in> mountedSet (mountOne cfg x s)" if "y \<in> mountedSet s" for y
      using that by (simp add: mountOne_def)
    show "callbackLog (mountOne cfg x s) = callbackLog s @ ?new"
      using False by (simp add: mountOne_def)
    show "subscribers s y = 0" if "UnmountCalled y \<in> set ?new" for y
      using that by (simp split: if_splits)
    show "MountCalled y \<notin> set ?new \<and> UnmountCalled y \<notin> set ?new" if "y \<in> mountedSet s" for y
      using that False by auto
  qed
qed

lemma passOk_unmountOne: "passOk cfg s (unmountOne x s)"
proof (cases "canUnmount s x")
  case False
  then show ?thesis by (simp add: unmountOne_def passOk_refl)
next
  case True
  then have mx: "x \<in> mountedSet s" and sx: "subscribers s x = 0" by (simp_all add: canUnmount_def)
  let ?new = "if x \<in> unmountCallbacks s then [UnmountCalled x] else []"
  show ?thesis
  proof (rule passOkI[where new = ?new])
    show "subscribers (unmountOne x s) = subscribers s" by simp
    show "pairedOk cfg (unmountOne x s)" if "pairedOk cfg s"
      using that True mx unfolding pairedOk_def unmountOne_def by auto
    show "y \<in> mountedSet (unmountOne x s)" if "y \<in> mountedSet s" "0 < subscribers s y" for y
      using that sx True by (auto simp: unmountOne_def)
    show "callbackLog (unmountOne x s) = callbackLog s @ ?new"
      using True by (simp add: unmountOne_def)
    show "subscribers s y = 0" if "UnmountCalled y \<in> set ?new" for y
      using that sx by (simp split: if_splits)
    show "MountCalled y \<notin> set ?new \<and> UnmountCalled y \<notin> set ?new"
      if "y \<in> mountedSet s" "0 < subscribers s y" for y
      using that sx by auto
  qed
qed

lemma rstep_passOk: "rstep cfg cs s s' \<Longrightarrow> passOk cfg s s'"
proof (induction rule: rstep.induct)
  case (commit a st v deps)
  show ?case by (rule passOk_same) simp_all
next
  case (issue a st deps)
  show ?case by (rule passOk_same) simp_all
next
  case (mount st x)
  show ?case by (rule passOk_mountOne)
next
  case (unmount st x)
  show ?case by (rule passOk_unmountOne)
qed

lemma rsteps_passOk: "(rstep cfg cs)\<^sup>*\<^sup>* s s' \<Longrightarrow> passOk cfg s s'"
  by (induction rule: rtranclp_induct) (auto intro: passOk_refl passOk_trans rstep_passOk)

lemma getValue_passOk: "getValue cfg n st a = (res, st') \<Longrightarrow> passOk cfg st st'"
  using getValue_steps by (blast intro: rsteps_passOk)

lemma commitAndPropagate_passOk:
  assumes "commitAndPropagate cfg n st a v = (err, st')"
  shows "passOk cfg st st'"
proof -
  from commitAndPropagate_steps[OF assms] show ?thesis
  proof
    assume "st' = st" then show ?thesis by (simp add: passOk_refl)
  next
    assume "\<exists>ds. (rstep cfg {})\<^sup>*\<^sup>*
                 ((invalidate st ds)\<lparr>valueMap := (valueMap (invalidate st ds))(a \<mapsto> Resolved v)\<rparr>) st'"
    then obtain ds where steps: "(rstep cfg {})\<^sup>*\<^sup>*
                 ((invalidate st ds)\<lparr>valueMap := (valueMap (invalidate st ds))(a \<mapsto> Resolved v)\<rparr>) st'" ..
    have "passOk cfg st ((invalidate st ds)\<lparr>valueMap := (valueMap (invalidate st ds))(a \<mapsto> Resolved v)\<rparr>)"
      by (rule passOk_same) simp_all
    from this rsteps_passOk[OF steps] show ?thesis by (rule passOk_trans)
  qed
qed

lemma runWrite_passOk:
  assumes g: "\<And>s d r s'. get s d = (r, s') \<Longrightarrow> passOk cfg s s'"
    and t: "\<And>s x v e s'. set' s x v = (e, s') \<Longrightarrow> passOk cfg s s'"
  shows "runWrite get set' w st = (err, st') \<Longrightarrow> passOk cfg st st'"
proof (induction w arbitrary: st)
  case Done
  then show ?case by (simp add: passOk_refl)
next
  case (Fail e)
  then show ?case by (simp add: passOk_refl)
next
  case (WGet d k)
  obtain r s1 where gd: "get st d = (r, s1)" by (cases "get st d")
  note p1 = g[OF gd]
  show ?case
  proof (cases r)
    case (Value v)
    with WGet.prems gd have "runWrite get set' (k v) s1 = (err, st')" by simp
    moreover have "k v \<in> range k" by simp
    ultimately have "passOk cfg s1 st'" by (rule WGet.IH[rotated])
    with p1 show ?thesis by (rule passOk_trans)
  next
    case (PendingMarker p)
    with WGet.prems gd have "st' = s1" by simp
    with p1 show ?thesis by simp
  next
    case (Failed e)
    with WGet.prems gd have "st' = s1" by simp
    with p1 show ?thesis by simp
  qed
next
  case (WSet x v k)
  obtain e s1 where sx: "set' st x v = (e, s1)" by (cases "set' st x v")
  note p1 = t[OF sx]
  show ?case
  proof (cases e)
    case None
    with WSet.prems sx have "runWrite get set' k s1 = (err, st')" by simp
    then have "passOk cfg s1 st'" by (rule WSet.IH)
    with p1 show ?thesis by (rule passOk_trans)
  next
    case (Some e')
    with WSet.prems sx have "st' = s1" by simp
    with p1 show ?thesis by simp
  qed
qed

lemma setValue_passOk:
  assumes "setValue cfg n st a update = (err, st')"
  shows "passOk cfg st st'"
proof (cases "write' (cfg a)")
  case (Some w)
  with assms have "runWrite (getValue cfg n) (commitAndPropagate cfg n) (w update) st = (err, st')"
    by (simp add: setValue_def)
  then show ?thesis
    by (rule runWrite_passOk[rotated 2]) (auto intro: getValue_passOk commitAndPropagate_passOk)
next
  case None
  show ?thesis
  proof (cases "read (cfg a)")
    case (Constant c)
    with None assms have "commitAndPropagate cfg n st a update = (err, st')"
      by (simp add: setValue_def)
    then show ?thesis by (rule commitAndPropagate_passOk)
  next
    case (Compute r)
    with None assms have "st' = st" by (simp add: setValue_def)
    then show ?thesis by (simp add: passOk_refl)
  qed
qed

lemma settlePromise_passOk:
  assumes "settlePromise cfg n st a p v = (err, st')"
  shows "passOk cfg st st'"
proof (cases "pendingPromiseMap st a = Some p")
  case False
  with assms have "st' = st" by (simp add: settlePromise_def)
  then show ?thesis by (simp add: passOk_refl)
next
  case True
  show ?thesis
  proof (cases "reachable n (dependentMap st) a")
    case None
    with True assms have "st' = st" by (simp add: settlePromise_def)
    then show ?thesis by (simp add: passOk_refl)
  next
    case (Some ds)
    let ?s1 = "st\<lparr>pendingPromiseMap := (pendingPromiseMap st)(a := None)\<rparr>"
    from True Some assms have "commitAndPropagate cfg n ?s1 a v = (err, st')"
      by (simp add: settlePromise_def)
    then have "passOk cfg ?s1 st'" by (rule commitAndPropagate_passOk)
    moreover have "passOk cfg st ?s1" by (rule passOk_same) simp_all
    ultimately show ?thesis by (rule passOk_trans[rotated])
  qed
qed

lemma passOk_quietPass:
  assumes p: "passOk cfg s1 s'" and l: "callbackLog s1 = callbackLog s"
    and m: "mountedSet s1 = mountedSet s"
  shows "quietPass s s'"
proof -
  from p obtain new where sub: "subscribers s' = subscribers s1"
    and log: "callbackLog s' = callbackLog s1 @ new"
    and a: "\<forall>x. UnmountCalled x \<in> set new \<longrightarrow> subscribers s1 x = 0"
    and b: "\<forall>x. x \<in> mountedSet s1 \<and> 0 < subscribers s1 x \<longrightarrow>
               MountCalled x \<notin> set new \<and> UnmountCalled x \<notin> set new"
    unfolding passOk_def by blast
  have "callbackLog s' = callbackLog s @ new \<and>
        (\<forall>x. UnmountCalled x \<in> set new \<longrightarrow> subscribers s' x = 0) \<and>
        (\<forall>x. x \<in> mountedSet s \<and> 0 < subscribers s' x \<longrightarrow>
             MountCalled x \<notin> set new \<and> UnmountCalled x \<notin> set new)"
    using sub log a b l m by simp
  then show ?thesis unfolding quietPass_def by blast
qed

lemma passOk_lifecycleOk:
  assumes p: "passOk cfg s1 s'" and pd: "pairedOk cfg s1" and sm: "subscribedMounted s1"
  shows "lifecycleOk cfg s' "
proof -
  from p pd have "pairedOk cfg s'" unfolding passOk_def by blast
  moreover have "subscribedMounted s'"
    unfolding subscribedMounted_def
  proof (intro allI impI)
    fix x assume "0 < subscribers s' x"
    with p have s: "0 < subscribers s1 x" unfolding passOk_def by simp
    with sm have "x \<in> mountedSet s1" unfolding subscribedMounted_def by blast
    with s p show "x \<in> mountedSet s'" unfolding passOk_def by blast
  qed
  ultimately show ?thesis by (simp add: lifecycleOk_def)
qed

lemma passOk_lifecycle:
  assumes "passOk cfg st st'" and "lifecycleOk cfg st"
  shows "lifecycleOk cfg st' \<and> quietPass st st'"
  using passOk_lifecycleOk[OF assms(1)] passOk_quietPass[OF assms(1), of st] assms(2)
  by (simp add: lifecycleOk_def)

lemma fold_mountOne_keeps: "x \<in> mountedSet st \<Longrightarrow> x \<in> mountedSet (fold (mountOne cfg) xs st)"
  by (induction xs arbitrary: st) (simp_all add: mountOne_def)

lemma fold_mountOne_mounts: "x \<in> set xs \<Longrightarrow> x \<in> mountedSet (fold (mountOne cfg) xs st)"
proof (induction xs arbitrary: st)
  case Nil
  then show ?case by simp
next
  case (Cons y ys)
  show ?case
  proof (cases "x = y")
    case True
    have "y \<in> mountedSet (mountOne cfg y st)" by (simp add: mountOne_def)
    with True show ?thesis by (simp add: fold_mountOne_keeps)
  next
    case False
    with Cons show ?thesis by simp
  qed
qed

lemma closure_roots: "closure n g xs = Some ys \<Longrightarrow> set xs \<subseteq> set ys"
  by (auto simp: closure_def)

lemma subscribe_lifecycle:
  assumes s: "subscribe cfg n st a = (err, st')" and ok: "lifecycleOk cfg st"
  shows "lifecycleOk cfg st' \<and> quietPass st st'"
proof (cases "closure n (dependencyMap st) [a]")
  case None
  with s have "st' = st" by (simp add: subscribe_def)
  with passOk_lifecycle[OF passOk_refl ok] show ?thesis by simp
next
  case (Some ms)
  let ?s1 = "st\<lparr>subscribers := (subscribers st)(a := Suc (subscribers st a))\<rparr>"
  from Some s have st': "st' = fold (mountOne cfg) ms ?s1" by (simp add: subscribe_def)
  have p: "passOk cfg ?s1 st'" unfolding st' by (rule rsteps_passOk[OF fold_mountOne_steps[where cs = "{}"]])
  from ok have pd: "pairedOk cfg ?s1" and sm: "subscribedMounted st"
    by (simp_all add: lifecycleOk_def pairedOk_def)
  from p pd have pd': "pairedOk cfg st'" unfolding passOk_def by blast
  have "a \<in> set ms" using closure_roots[OF Some] by simp
  then have am: "a \<in> mountedSet st'" unfolding st' by (rule fold_mountOne_mounts)
  have sm': "subscribedMounted st'"
    unfolding subscribedMounted_def
  proof (intro allI impI)
    fix x assume pos: "0 < subscribers st' x"
    show "x \<in> mountedSet st'"
    proof (cases "x = a")
      case True
      with am show ?thesis by simp
    next
      case False
      from pos p have "0 < subscribers ?s1 x" unfolding passOk_def by simp
      with False have "0 < subscribers st x" by simp
      with sm have "x \<in> mountedSet st" unfolding subscribedMounted_def by blast
      then have "x \<in> mountedSet ?s1" by simp
      then show ?thesis unfolding st' by (rule fold_mountOne_keeps)
    qed
  qed
  have "quietPass st st'" by (rule passOk_quietPass[OF p]) simp_all
  with pd' sm' show ?thesis by (simp add: lifecycleOk_def)
qed

lemma unsubscribe_lifecycle:
  assumes s: "unsubscribe n st a = (err, st')" and ok: "lifecycleOk cfg st"
  shows "lifecycleOk cfg st' \<and> quietPass st st'"
proof (cases "subscribers st a = 0 \<or> closure n (dependencyMap st) [a] = None")
  case True
  with s have "st' = st" by (auto simp: unsubscribe_def split: if_splits)
  with passOk_lifecycle[OF passOk_refl ok] show ?thesis by simp
next
  case False
  then obtain us where pos: "subscribers st a \<noteq> 0" and c: "closure n (dependencyMap st) [a] = Some us"
    by auto
  let ?s1 = "st\<lparr>subscribers := (subscribers st)(a := subscribers st a - 1)\<rparr>"
  from pos c s have st': "st' = fold unmountOne us ?s1" by (simp add: unsubscribe_def)
  have p: "passOk cfg ?s1 st'"
    unfolding st' by (rule rsteps_passOk[OF fold_unmountOne_steps[where cs = "{}" and cfg = cfg]])
  from ok have pd: "pairedOk cfg ?s1" and sm: "subscribedMounted st"
    by (simp_all add: lifecycleOk_def pairedOk_def)
  have sm1: "subscribedMounted ?s1"
    using sm unfolding subscribedMounted_def by (auto split: if_splits)
  from passOk_lifecycleOk[OF p pd sm1] passOk_quietPass[OF p, of st] show ?thesis by simp
qed

lemma lifecycleOk_createStore: "lifecycleOk cfg (createStore initialValues)"
  by (simp add: lifecycleOk_def pairedOk_def subscribedMounted_def createStore_def)

lemma rstep_issued:
  assumes "rstep cfg cs y z"
    and "valueMap y x = None \<or>
         (\<forall>p. valueMap y x = Some (Pending p) \<longrightarrow>
              lo \<le> p \<and> p < nextPromise y \<and> pendingPromiseMap y x = Some p)"
  shows "valueMap z x = None \<or>
         (\<forall>p. valueMap z x = Some (Pending p) \<longrightarrow>
              min lo (nextPromise y) \<le> p \<and> p < nextPromise z \<and> pendingPromiseMap z x = Some p)"
  using assms
proof (induction rule: rstep.induct)
  case (commit a st v deps)
  then show ?case by (cases "x = a") auto
next
  case (issue a st deps)
  then show ?case by (cases "x = a") auto
next
  case (mount st x')
  then show ?case by auto
next
  case (unmount st x')
  then show ?case by auto
qed

lemma rsteps_issued_inv:
  assumes "(rstep cfg cs)\<^sup>*\<^sup>* s s'" and "valueMap s x = None"
  shows "valueMap s' x = None \<or>
         (\<forall>p. valueMap s' x = Some (Pending p) \<longrightarrow>
              nextPromise s \<le> p \<and> p < nextPromise s' \<and> pendingPromiseMap s' x = Some p)"
  using assms
proof (induction rule: rtranclp_induct)
  case base
  then show ?case by simp
next
  case (step y z)
  from rsteps_nextPromise[OF step.hyps(1)] have le: "nextPromise s \<le> nextPromise y" .
  from rstep_issued[OF step.hyps(2), of x "nextPromise s"] step.IH[OF step.prems] le
  show ?case by (simp add: min_def)
qed

lemma rsteps_issued:
  assumes "(rstep cfg cs)\<^sup>*\<^sup>* s s'" and "valueMap s x = None"
    and "valueMap s' x = Some (Pending p)"
  shows "nextPromise s \<le> p \<and> p < nextPromise s' \<and> pendingPromiseMap s' x = Some p"
  using rsteps_issued_inv[OF assms(1,2)] assms(3) by simp

lemma rstep_pendingPromise:
  "rstep cfg cs y z \<Longrightarrow>
   pendingPromiseMap z x = pendingPromiseMap y x \<or> pendingPromiseMap z x = Some (nextPromise y)"
  by (induction rule: rstep.induct) auto

lemma rsteps_pendingPromise:
  "(rstep cfg cs)\<^sup>*\<^sup>* s s' \<Longrightarrow>
   pendingPromiseMap s' x = pendingPromiseMap s x \<or>
   (\<exists>q. pendingPromiseMap s' x = Some q \<and> nextPromise s \<le> q)"
proof (induction rule: rtranclp_induct)
  case base
  then show ?case by simp
next
  case (step y z)
  from rsteps_nextPromise[OF step.hyps(1)] have le: "nextPromise s \<le> nextPromise y" .
  from rstep_pendingPromise[OF step.hyps(2), of x] step.IH le show ?case by auto
qed



lemma rstep_committed_edges:
  assumes "rstep cfg cs y z" and "valueMap y a \<noteq> None"
  shows "a \<in> set (dependentMap z x) \<longleftrightarrow> a \<in> set (dependentMap y x)"
  using assms
proof (induction rule: rstep.induct)
  case (commit b st v deps)
  then have "a \<noteq> b" by auto
  then show ?case by (simp add: commitValue_def setDependencies_dependentMap)
next
  case (issue b st deps)
  then have "a \<noteq> b" by auto
  then show ?case by (simp add: issuePromise_def setDependencies_dependentMap)
next
  case (mount st x')
  show ?case by simp
next
  case (unmount st x')
  show ?case by simp
qed

lemma rsteps_committed_edges:
  assumes "(rstep cfg cs)\<^sup>*\<^sup>* s s'" and "valueMap s a \<noteq> None"
  shows "a \<in> set (dependentMap s' x) \<longleftrightarrow> a \<in> set (dependentMap s x)"
  using assms
proof (induction rule: rtranclp_induct)
  case base
  show ?case by simp
next
  case (step y z)
  from step.prems obtain vs where "valueMap s a = Some vs" by auto
  from rsteps_valueMap_keeps[OF step.hyps(1) this] have "valueMap y a \<noteq> None" by simp
  from rstep_committed_edges[OF step.hyps(2) this] step.IH[OF step.prems] show ?case by simp
qed

lemma eventsOf_append [simp]: "eventsOf x (xs @ ys) = eventsOf x xs @ eventsOf x ys"
  by (simp add: eventsOf_def)

lemma rstep_needed_quiet:
  assumes "rstep cfg cs y z" and mx: "x \<in> mountedSet y" and ma: "a \<in> mountedSet y"
    and sa: "0 < subscribers y a" and ed: "a \<in> set (dependentMap y x)"
  shows "x \<in> mountedSet z \<and> a \<in> mountedSet z \<and> 0 < subscribers z a \<and>
         eventsOf x (callbackLog z) = eventsOf x (callbackLog y) \<and>
         (a \<in> set (dependentMap z x) \<or> valueMap z a \<noteq> None)"
  using assms
proof (induction rule: rstep.induct)
  case (commit b st v deps)
  then show ?case
    by (cases "a = b") (simp_all add: commitValue_def setDependencies_dependentMap)
next
  case (issue b st deps)
  then show ?case
    by (cases "a = b") (simp_all add: issuePromise_def setDependencies_dependentMap)
next
  case (mount st x')
  then show ?case by (auto simp: mountOne_def eventsOf_def)
next
  case (unmount st x')
  have nx: "\<not> canUnmount st x" using unmount by (auto simp: canUnmount_def list_all_iff)
  have na: "\<not> canUnmount st a" using unmount by (simp add: canUnmount_def)
  show ?case
  proof (cases "canUnmount st x'")
    case False
    with unmount show ?thesis by (simp add: unmountOne_def)
  next
    case True
    with nx na have "x' \<noteq> x" "x' \<noteq> a" by auto
    with True unmount show ?thesis by (simp add: unmountOne_def eventsOf_def)
  qed
qed

lemma rsteps_needed_quiet:
  assumes "(rstep cfg cs)\<^sup>*\<^sup>* s s'" and "a \<in> set (dependentMap s' x)"
  shows "x \<in> mountedSet s \<Longrightarrow> a \<in> mountedSet s \<Longrightarrow> 0 < subscribers s a \<Longrightarrow>
         a \<in> set (dependentMap s x) \<Longrightarrow>
         eventsOf x (callbackLog s') = eventsOf x (callbackLog s) \<and> x \<in> mountedSet s'"
  using assms(1)
proof (induction rule: converse_rtranclp_induct)
  case base
  then show ?case by simp
next
  case (step y z)
  note q = rstep_needed_quiet[OF step.hyps(1) step.prems]
  have "a \<in> set (dependentMap z x)"
  proof (cases "valueMap z a = None")
    case True
    with q show ?thesis by simp
  next
    case False
    from rsteps_committed_edges[OF step.hyps(2) False, of x] assms(2) show ?thesis by simp
  qed
  with q step.IH show ?case by simp
qed

lemma updatePass_needed_quiet:
  assumes up: "updatePass cfg st st'" and mx: "x \<in> mountedSet st" and ma: "a \<in> mountedSet st"
    and sa: "0 < subscribers st a" and ed: "a \<in> set (dependentMap st x)"
    and ed': "a \<in> set (dependentMap st' x)"
  shows "eventsOf x (callbackLog st') = eventsOf x (callbackLog st) \<and> x \<in> mountedSet st'"
proof -
  have viaSet: "eventsOf x (callbackLog st') = eventsOf x (callbackLog s1) \<and> x \<in> mountedSet st'"
    if c: "commitAndPropagate cfg n s1 b v = (err, st')"
      and same: "mountedSet s1 = mountedSet st" "subscribers s1 = subscribers st"
        "dependentMap s1 = dependentMap st"
    for n s1 b v err
  proof -
    from commitAndPropagate_steps[OF c] show ?thesis
    proof
      assume "st' = s1" with mx same show ?thesis by simp
    next
      assume "\<exists>ds. (rstep cfg {})\<^sup>*\<^sup>*
                 ((invalidate s1 ds)\<lparr>valueMap := (valueMap (invalidate s1 ds))(b \<mapsto> Resolved v)\<rparr>) st'"
      then obtain ds where steps: "(rstep cfg {})\<^sup>*\<^sup>*
                 ((invalidate s1 ds)\<lparr>valueMap := (valueMap (invalidate s1 ds))(b \<mapsto> Resolved v)\<rparr>) st'" ..
      from rsteps_needed_quiet[OF steps ed'] mx ma sa ed same show ?thesis by simp
    qed
  qed
  from up show ?thesis
  proof cases
    case (passRead n b res)
    from getValue_steps[OF this] have "(rstep cfg {})\<^sup>*\<^sup>* st st'" by simp
    from rsteps_needed_quiet[OF this ed' mx ma sa ed] show ?thesis .
  next
    case (passSet n b v err)
    from viaSet[OF this] show ?thesis by simp
  next
    case (passSettle n b p v err)
    show ?thesis
    proof (cases "pendingPromiseMap st b = Some p \<and> reachable n (dependentMap st) b \<noteq> None")
      case False
      with passSettle have "st' = st" by (auto simp: settlePromise_def split: option.splits if_splits)
      with mx show ?thesis by simp
    next
      case True
      with passSettle
      have "commitAndPropagate cfg n (st\<lparr>pendingPromiseMap := (pendingPromiseMap st)(b := None)\<rparr>) b v
              = (err, st')"
        by (auto simp: settlePromise_def)
      from viaSet[OF this] show ?thesis by simp
    qed
  qed
qed



end
